theory Spec2Isabelle
  imports Main
begin

section \<open>Strings as Python sees them\<close>

text \<open>
  The program is \<open>shdl2ethsnarks.py\<close>. Lines are Python 3 \<open>str\<close> values; they are
  modelled as \<open>string\<close> (a list of characters with code points below 256).
  \<open>is_space\<close> is the set of those code points for which \<open>str.isspace\<close>, \<open>str.strip\<close>,
  \<open>str.split\<close> and the pattern \<open>\s\<close> agree in Python 3:
  9..13, 28..31, 32, 133 and 160. \<open>is_digit\<close> is the explicit class \<open>[0-9]\<close>.
\<close>

definition is_space :: "char \<Rightarrow> bool" where
  "is_space c = (of_char c \<in> set [9, 10, 11, 12, 13, 28, 29, 30, 31, 32, 133, 160 :: nat])"

definition is_digit :: "char \<Rightarrow> bool" where
  "is_digit c = (c \<in> set ''0123456789'')"

definition is_bit01 :: "char \<Rightarrow> bool" where
  "is_bit01 c = (c \<in> set ''01'')"

definition not_dquote :: "char \<Rightarrow> bool" where
  "not_dquote c = (c \<noteq> CHR 0x22)"

definition not_newline :: "char \<Rightarrow> bool" where
  "not_newline c = (c \<noteq> CHR 0x0A)"

text \<open>\<open>str.strip()\<close>: whitespace removed at both ends.\<close>

definition strip :: "string \<Rightarrow> string" where
  "strip s = rev (dropWhile is_space (rev (dropWhile is_space s)))"

text \<open>
  \<open>str.split()\<close> without arguments: the maximal runs of non-whitespace characters, in
  order; \<open>cur\<close> is the run being read.
\<close>

fun split_acc :: "string \<Rightarrow> string \<Rightarrow> string list" where
  "split_acc cur [] = (if cur = [] then [] else [cur])"
| "split_acc cur (c # cs) =
     (if is_space c then (if cur = [] then split_acc [] cs else cur # split_acc [] cs)
      else split_acc (cur @ [c]) cs)"

definition split :: "string \<Rightarrow> string list" where
  "split s = split_acc [] s"

text \<open>
  \<open>int(s)\<close> on a token. Every token that reaches \<open>int\<close> in this program is cut out of a
  group matched by \<open>[0-9]\<close> or \<open>[01]\<close> characters, so only the decimal reading of a
  non-empty run of ASCII digits is modelled; on anything else the model answers \<open>None\<close>,
  which the callers turn into \<open>ValueError\<close>. Python's integers are unbounded: \<open>int\<close>.
\<close>

definition digit_val :: "char \<Rightarrow> int" where
  "digit_val c = int (of_char c) - 48"

definition py_int :: "string \<Rightarrow> int option" where
  "py_int s = (if s \<noteq> [] \<and> list_all is_digit s
               then Some (foldl (\<lambda>n c. 10 * n + digit_val c) 0 s) else None)"

section \<open>The regular expressions\<close>

text \<open>
  Python's \<open>re\<close> is a backtracking matcher. A pattern is a value of \<open>regex\<close>; \<open>matches\<close>
  lists, in the order the backtracking search visits them, every way the pattern can
  match at the front of the remaining input, each with the text still to read and the
  named groups captured on the way (most recent first). \<open>re.match\<close> returns the first.

  \<open>Cls p\<close> is one character of a class, \<open>Grp name r\<close> a named group \<open>(?P<name>r)\<close>,
  \<open>Star\<close>, \<open>Plus\<close> and \<open>Opt\<close> the greedy \<open>*\<close>, \<open>+\<close> and \<open>?\<close>, \<open>Bol\<close> and \<open>Eol\<close> the anchors
  \<open>^\<close> and \<open>$\<close>. Groups without a name only bracket: the program never reads them.
\<close>

datatype regex =
    Lit string
  | Cls "char \<Rightarrow> bool"
  | Seq regex regex
  | Alt regex regex
  | Star regex
  | Plus regex
  | Opt regex
  | Grp string regex
  | Bol
  | Eol

type_synonym captures = "(string \<times> string) list"
type_synonym mstate = "string \<times> captures"

text \<open>
  Greedy repetition of a matcher \<open>f\<close>: one more round first, then stopping here. A round
  has to consume input, so the length of the remaining input bounds the rounds.
\<close>

primrec star :: "(mstate \<Rightarrow> mstate list) \<Rightarrow> nat \<Rightarrow> mstate \<Rightarrow> mstate list" where
  "star f 0 st = [st]"
| "star f (Suc k) st =
     concat (map (star f k) (filter (\<lambda>st'. length (fst st') < length (fst st)) (f st))) @ [st]"

text \<open>\<open>n\<close> is the length of the whole subject string, for \<open>^\<close>.\<close>

primrec matches :: "nat \<Rightarrow> regex \<Rightarrow> mstate \<Rightarrow> mstate list" where
  "matches n (Lit w) st =
     (if take (length w) (fst st) = w then [(drop (length w) (fst st), snd st)] else [])"
| "matches n (Cls p) st =
     (case fst st of [] \<Rightarrow> [] | c # cs \<Rightarrow> if p c then [(cs, snd st)] else [])"
| "matches n (Seq a b) st = concat (map (matches n b) (matches n a st))"
| "matches n (Alt a b) st = matches n a st @ matches n b st"
| "matches n (Star a) st = star (matches n a) (length (fst st)) st"
| "matches n (Plus a) st =
     concat (map (\<lambda>st'. star (matches n a) (length (fst st')) st') (matches n a st))"
| "matches n (Opt a) st = matches n a st @ [st]"
| "matches n (Grp name a) st =
     map (\<lambda>st'. (fst st', (name, take (length (fst st) - length (fst st')) (fst st)) # snd st'))
       (matches n a st)"
| "matches n Bol st = (if length (fst st) = n then [st] else [])"
| "matches n Eol st = (if fst st = [] \<or> fst st = [CHR 0x0A] then [st] else [])"

text \<open>\<open>pattern.match(s)\<close>: the groups of the first match at position 0, or \<open>None\<close>.\<close>

definition re_match :: "regex \<Rightarrow> string \<Rightarrow> captures option" where
  "re_match r s = (case matches (length s) r (s, []) of [] \<Rightarrow> None | st # _ \<Rightarrow> Some (snd st))"

text \<open>\<open>m.group(name)\<close>: \<open>None\<close> when the group took no part in the match.\<close>

definition group_of :: "captures \<Rightarrow> string \<Rightarrow> string option" where
  "group_of m name = map_of m name"

fun cat :: "regex list \<Rightarrow> regex" where
  "cat [] = Lit []"
| "cat [r] = r"
| "cat (r # rs) = Seq r (cat rs)"

text \<open>
  \<^verbatim>\<open>RE_GATE_LINE = ^(?P<wire>[0-9]+) ((?P<is_output>output )?gate arity (?P<arity>[0-9]+)
  table \[\s(?P<table>([01]\s?)+)\] inputs \[\s(?P<inputs>[0-9]+\s)+\]|(?P<is_input>input))
  (?P<comment>\s*//.*)?$\<close>

  The group \<open>inputs\<close> stands inside the repetition, one wire and one whitespace
  character at a time, so after a match it holds the last wire only; and the repetition
  asks for at least one wire.
\<close>

definition RE_GATE_BODY :: regex where
  "RE_GATE_BODY = cat [
     Opt (Grp ''is_output'' (Lit ''output '')),
     Lit ''gate arity '',
     Grp ''arity'' (Plus (Cls is_digit)),
     Lit '' table ['',
     Cls is_space,
     Grp ''table'' (Plus (Seq (Cls is_bit01) (Opt (Cls is_space)))),
     Lit ''] inputs ['',
     Cls is_space,
     Plus (Grp ''inputs'' (Seq (Plus (Cls is_digit)) (Cls is_space))),
     Lit '']'']"

definition RE_GATE_LINE :: regex where
  "RE_GATE_LINE = cat [
     Bol,
     Grp ''wire'' (Plus (Cls is_digit)),
     Lit '' '',
     Alt RE_GATE_BODY (Grp ''is_input'' (Lit ''input'')),
     Opt (Grp ''comment'' (cat [Star (Cls is_space), Lit ''//'', Star (Cls not_newline)])),
     Eol]"

text \<open>
  \<^verbatim>\<open>RE_VAR_LINE = (?P<party>Alice|Bob) (input|output) (?P<type>integer)
  "(?P<name>[^"]+)" \[\s*(?P<inputs>([0-9]+\s)+)\]\<close>
\<close>

definition RE_VAR_LINE :: regex where
  "RE_VAR_LINE = cat [
     Grp ''party'' (Alt (Lit ''Alice'') (Lit ''Bob'')),
     Lit '' '',
     Alt (Lit ''input'') (Lit ''output''),
     Lit '' '',
     Grp ''type'' (Lit ''integer''),
     Lit [CHR '' '', CHR 0x22],
     Grp ''name'' (Plus (Cls not_dquote)),
     Lit [CHR 0x22, CHR '' '', CHR ''[''],
     Star (Cls is_space),
     Grp ''inputs'' (Plus (Seq (Plus (Cls is_digit)) (Cls is_space))),
     Lit '']'']"

section \<open>Gates\<close>

text \<open>
  What a Python function does besides returning is explicit. An uncaught exception is
  \<open>Inl\<close> of an \<open>exn\<close>. A diagnostic printed before \<open>return None\<close> or before an integer
  status is returned travels with that return as a \<open>report\<close>: one constructor for each
  group of \<open>print\<close> calls of the source, holding the values printed.
\<close>

datatype exn = AttributeError | TypeError | ValueError | IOError

datatype report =
    MalformedGateLine nat string
      \<comment> \<open>\<open>Error on line\<close>, \<open>Line:\<close>\<close>
  | UnsupportedArity nat string int
      \<comment> \<open>the same and \<open>Gate arity %d not supported!\<close>\<close>
  | TableSizeMismatch nat string int int nat
      \<comment> \<open>the same and \<open>Expected table of %d bits for arity %d, got table of %d bits\<close>\<close>
  | DuplicateWire nat string int
      \<comment> \<open>the same and \<open>Duplicate wire:\<close>\<close>
  | Usage

definition obind :: "exn + 'a \<Rightarrow> ('a \<Rightarrow> exn + 'b) \<Rightarrow> exn + 'b" where
  "obind x f = (case x of Inl e \<Rightarrow> Inl e | Inr v \<Rightarrow> f v)"

text \<open>
  The fields \<open>table\<close> and \<open>inputs\<close> of a gate hold \<open>None\<close>, the group's text when that is
  empty (\<open>if table:\<close> is false for both), or the list of integers read from it.
\<close>

datatype pyval = PyNone | PyStr string | PyList "int list"

record Gate =
  is_input :: bool
  is_output :: bool
  wire :: int
  arity :: "int option"
  table :: pyval
  inputs :: pyval
  comment :: "string option"

definition is_constant :: "Gate \<Rightarrow> bool" where
  "is_constant self = (arity self = Some 0)"

definition is_passthru :: "Gate \<Rightarrow> bool" where
  "is_passthru self = (arity self = Some 1 \<and> table self = PyList [0, 1])"

definition is_not :: "Gate \<Rightarrow> bool" where
  "is_not self = (arity self = Some 1 \<and> table self = PyList [1, 0])"

text \<open>\<open>int(m.group(..))\<close>: \<open>int(None)\<close> is a \<open>TypeError\<close>.\<close>

definition int_of_group :: "string option \<Rightarrow> exn + int" where
  "int_of_group g =
     (case g of None \<Rightarrow> Inl TypeError
      | Some s \<Rightarrow> (case py_int s of None \<Rightarrow> Inl ValueError | Some k \<Rightarrow> Inr k))"

text \<open>\<open>[int(_) for _ in s.split()]\<close>\<close>

fun ints_of_tokens :: "string list \<Rightarrow> exn + int list" where
  "ints_of_tokens [] = Inr []"
| "ints_of_tokens (t # ts) =
     (case py_int t of None \<Rightarrow> Inl ValueError
      | Some k \<Rightarrow> obind (ints_of_tokens ts) (\<lambda>ks. Inr (k # ks)))"

text \<open>\<open>x = m.group(..); if x: x = [int(_) for _ in x.split()]\<close>\<close>

definition list_of_group :: "string option \<Rightarrow> exn + pyval" where
  "list_of_group g =
     (case g of None \<Rightarrow> Inr PyNone
      | Some s \<Rightarrow> if s = [] then Inr (PyStr s)
                  else obind (ints_of_tokens (split s)) (\<lambda>ks. Inr (PyList ks)))"

definition py_len :: "pyval \<Rightarrow> exn + nat" where
  "py_len v = (case v of PyNone \<Rightarrow> Inl TypeError | PyStr s \<Rightarrow> Inr (length s)
               | PyList ks \<Rightarrow> Inr (length ks))"

text \<open>
  \<open>Gate.from_line\<close>, the arity: \<open>int(arity)\<close> when the group took part, and the range
  check with its report.
\<close>

definition arity_of_group :: "nat \<Rightarrow> string \<Rightarrow> string option \<Rightarrow> exn + (report + int option)" where
  "arity_of_group lineno line g =
     (case g of None \<Rightarrow> Inr (Inr None)
      | Some a \<Rightarrow>
          obind (int_of_group (Some a)) (\<lambda>k.
            if k < 0 \<or> k > 3 then Inr (Inl (UnsupportedArity lineno line k))
            else Inr (Inr (Some k))))"

text \<open>
  \<open>Gate.from_line\<close>, the table check \<open>len(table) != 1<<arity\<close> on a gate that is not an
  input, and the final \<open>return cls(..)\<close>. \<open>len(None)\<close> and \<open>1 << None\<close> are a
  \<open>TypeError\<close>, a negative shift count a \<open>ValueError\<close>.
\<close>

definition Gate_check_table :: "nat \<Rightarrow> string \<Rightarrow> Gate \<Rightarrow> exn + (report + Gate)" where
  "Gate_check_table lineno line g =
     (if \<not> is_input g then
        obind (py_len (table g)) (\<lambda>len.
          case arity g of None \<Rightarrow> Inl TypeError
          | Some k \<Rightarrow>
              if k < 0 then Inl ValueError
              else if int len \<noteq> 2 ^ nat k
              then Inr (Inl (TableSizeMismatch lineno line (2 ^ nat k) k len))
              else Inr (Inr g))
      else Inr (Inr g))"

text \<open>\<open>Gate.from_line\<close>, from the groups of a match on, in the order of the source.\<close>

definition Gate_of_match :: "nat \<Rightarrow> string \<Rightarrow> captures \<Rightarrow> exn + (report + Gate)" where
  "Gate_of_match lineno line m =
     (let cmt = (case group_of m ''comment'' of None \<Rightarrow> None
                 | Some c \<Rightarrow> if c = [] then Some c else Some (drop 2 (strip c)))
      in
      obind (int_of_group (group_of m ''wire'')) (\<lambda>w.
      let inp = (group_of m ''is_input'' = Some ''input'') in
      obind (arity_of_group lineno line (group_of m ''arity'')) (\<lambda>checked.
        case checked of
          Inl r \<Rightarrow> Inr (Inl r)
        | Inr ar \<Rightarrow>
            obind (list_of_group (group_of m ''table'')) (\<lambda>tbl.
            obind (list_of_group (group_of m ''inputs'')) (\<lambda>ins.
            let outp = (group_of m ''is_output'' = Some ''output '') in
            Gate_check_table lineno line
              \<lparr>is_input = inp, is_output = outp, wire = w, arity = ar,
               table = tbl, inputs = ins, comment = cmt\<rparr>)))))"

definition Gate_from_line :: "string \<Rightarrow> nat \<Rightarrow> exn + (report + Gate)" where
  "Gate_from_line line0 lineno =
     (let line = strip line0 in
      case re_match RE_GATE_LINE line of
        None \<Rightarrow> Inr (Inl (MalformedGateLine lineno line))
      | Some m \<Rightarrow> Gate_of_match lineno line m)"

section \<open>Assembling the circuit\<close>

text \<open>
  An \<open>OrderedDict\<close> is an association list in insertion order; \<open>d[k] = v\<close> replaces the
  value of a key already present where it stands and appends a new key at the end.
\<close>

fun od_set :: "('k \<times> 'v) list \<Rightarrow> 'k \<Rightarrow> 'v \<Rightarrow> ('k \<times> 'v) list" where
  "od_set [] k v = [(k, v)]"
| "od_set ((k', v') # d) k v = (if k' = k then (k, v) # d else (k', v') # od_set d k v)"

definition od_has :: "('k \<times> 'v) list \<Rightarrow> 'k \<Rightarrow> bool" where
  "od_has d k = (k \<in> fst ` set d)"

text \<open>
  \<open>parse_gates\<close>: the loop over \<open>enumerate(file_handle)\<close>, line numbers from 0. The result
  is the dictionary, or the printed report with the integer returned (2 or 3).
\<close>

fun parse_gates_loop :: "nat \<Rightarrow> string list \<Rightarrow> (int \<times> Gate) list
    \<Rightarrow> exn + ((report \<times> int) + (int \<times> Gate) list)" where
  "parse_gates_loop lineno [] wires = Inr (Inr wires)"
| "parse_gates_loop lineno (l # ls) wires =
     (let line = strip l in
      if line = [] then parse_gates_loop (Suc lineno) ls wires
      else
        obind (Gate_from_line line lineno) (\<lambda>parsed.
          case parsed of
            Inl r \<Rightarrow> Inr (Inl (r, 2))
          | Inr g \<Rightarrow>
              if od_has wires (wire g)
              then Inr (Inl (DuplicateWire lineno line (wire g), 3))
              else parse_gates_loop (Suc lineno) ls (od_set wires (wire g) g)))"

definition parse_gates :: "string list \<Rightarrow> exn + ((report \<times> int) + (int \<times> Gate) list)" where
  "parse_gates file_handle = parse_gates_loop 0 file_handle []"

section \<open>Variables\<close>

text \<open>
  \<open>_VariableStruct\<close> has the four fields \<open>party\<close>, \<open>type\<close>, \<open>name\<close> and \<open>wires\<close>. The first
  three hold what \<open>m.group\<close> returns, a string or \<open>None\<close>.
\<close>

record Variable =
  party :: "string option"
  type :: "string option"
  name :: "string option"
  wires :: "int list"

text \<open>
  \<open>Variable.from_line\<close>: there is no test of \<open>m\<close>, so on a line that does not match
  \<open>m.group\<close> is an attribute access on \<open>None\<close>. \<open>lineno\<close> is not used.
\<close>

definition Variable_from_line :: "string \<Rightarrow> nat \<Rightarrow> exn + Variable" where
  "Variable_from_line line lineno =
     (case re_match RE_VAR_LINE line of
        None \<Rightarrow> Inl AttributeError
      | Some m \<Rightarrow>
          (case group_of m ''inputs'' of
             None \<Rightarrow> Inl AttributeError
           | Some i \<Rightarrow>
               obind (ints_of_tokens (split (strip i))) (\<lambda>ws.
                 Inr \<lparr>party = group_of m ''party'', type = group_of m ''type'',
                      name = group_of m ''name'', wires = ws\<rparr>)))"

fun parse_variables_loop :: "nat \<Rightarrow> string list \<Rightarrow> (string option \<times> Variable) list
    \<Rightarrow> exn + (string option \<times> Variable) list" where
  "parse_variables_loop lineno [] variables = Inr variables"
| "parse_variables_loop lineno (l # ls) variables =
     (let line = strip l in
      if line = [] then parse_variables_loop (Suc lineno) ls variables
      else
        obind (Variable_from_line line lineno) (\<lambda>parsed.
          parse_variables_loop (Suc lineno) ls (od_set variables (name parsed) parsed)))"

definition parse_variables :: "string list \<Rightarrow> exn + (string option \<times> Variable) list" where
  "parse_variables file_handle = parse_variables_loop 0 file_handle []"

section \<open>The command\<close>

text \<open>
  \<open>main(args)\<close> with the files it opens: \<open>files\<close> gives the lines of each path that can be
  opened. The value is what \<open>main\<close> returns (\<open>None\<close> or an integer) with the reports
  printed on the way; what \<open>print(wires)\<close> and \<open>print(variables)\<close> write is left out.
  The result of \<open>parse_gates\<close> is only printed: \<open>main\<close> does not look at it.
\<close>

definition main :: "string list \<Rightarrow> (string \<Rightarrow> string list option)
    \<Rightarrow> exn + (report list \<times> int option)" where
  "main args files =
     (if length args < 2 then Inr ([Usage], Some 1)
      else
        case files (args ! 0) of
          None \<Rightarrow> Inl IOError
        | Some gate_lines \<Rightarrow>
            obind (parse_gates gate_lines) (\<lambda>wires.
              case files (args ! 1) of
                None \<Rightarrow> Inl IOError
              | Some var_lines \<Rightarrow>
                  obind (parse_variables var_lines) (\<lambda>variables.
                    Inr (case wires of Inl (r, status) \<Rightarrow> [r] | Inr d \<Rightarrow> [], None))))"

text \<open>
  \<open>sys.exit(main(sys.argv[1:]))\<close>: \<open>None\<close> is exit status 0, an integer is the status
  itself (modulo 256), and an uncaught exception ends the process with status 1.
\<close>

definition exit_status :: "exn + (report list \<times> int option) \<Rightarrow> int" where
  "exit_status r =
     (case r of Inl e \<Rightarrow> 1
      | Inr (out, None) \<Rightarrow> 0
      | Inr (out, Some k) \<Rightarrow> k mod 256)"

section \<open>Static facts about a pattern\<close>

text \<open>
  The remaining definitions are not part of the program: they describe a pattern and the
  relation between the state before and after a match, for the proofs below.
  \<open>names r\<close> are the groups that occur in \<open>r\<close>, \<open>sets nm r\<close> says that every match of
  \<open>r\<close> goes through a group \<open>nm\<close>, \<open>chars_ok P r\<close> that \<open>r\<close> consumes only characters in
  \<open>P\<close>, \<open>nonnull r\<close> that \<open>r\<close> consumes at least one character, and \<open>no_bol r\<close> that \<open>r\<close>
  has no anchor \<open>^\<close>.
\<close>

primrec names :: "regex \<Rightarrow> string set" where
  "names (Lit w) = {}"
| "names (Cls p) = {}"
| "names (Seq a b) = names a \<union> names b"
| "names (Alt a b) = names a \<union> names b"
| "names (Star a) = names a"
| "names (Plus a) = names a"
| "names (Opt a) = names a"
| "names (Grp x a) = insert x (names a)"
| "names Bol = {}"
| "names Eol = {}"

primrec sets :: "string \<Rightarrow> regex \<Rightarrow> bool" where
  "sets nm (Lit w) = False"
| "sets nm (Cls p) = False"
| "sets nm (Seq a b) = (sets nm a \<or> sets nm b)"
| "sets nm (Alt a b) = (sets nm a \<and> sets nm b)"
| "sets nm (Star a) = False"
| "sets nm (Plus a) = sets nm a"
| "sets nm (Opt a) = False"
| "sets nm (Grp x a) = (x = nm \<or> sets nm a)"
| "sets nm Bol = False"
| "sets nm Eol = False"

primrec chars_ok :: "(char \<Rightarrow> bool) \<Rightarrow> regex \<Rightarrow> bool" where
  "chars_ok P (Lit w) = list_all P w"
| "chars_ok P (Cls p) = (\<forall>c. p c \<longrightarrow> P c)"
| "chars_ok P (Seq a b) = (chars_ok P a \<and> chars_ok P b)"
| "chars_ok P (Alt a b) = (chars_ok P a \<and> chars_ok P b)"
| "chars_ok P (Star a) = chars_ok P a"
| "chars_ok P (Plus a) = chars_ok P a"
| "chars_ok P (Opt a) = chars_ok P a"
| "chars_ok P (Grp x a) = chars_ok P a"
| "chars_ok P Bol = True"
| "chars_ok P Eol = True"

primrec nonnull :: "regex \<Rightarrow> bool" where
  "nonnull (Lit w) = (w \<noteq> [])"
| "nonnull (Cls p) = True"
| "nonnull (Seq a b) = (nonnull a \<or> nonnull b)"
| "nonnull (Alt a b) = (nonnull a \<and> nonnull b)"
| "nonnull (Star a) = False"
| "nonnull (Plus a) = nonnull a"
| "nonnull (Opt a) = False"
| "nonnull (Grp x a) = nonnull a"
| "nonnull Bol = False"
| "nonnull Eol = False"

primrec no_bol :: "regex \<Rightarrow> bool" where
  "no_bol (Lit w) = True"
| "no_bol (Cls p) = True"
| "no_bol (Seq a b) = (no_bol a \<and> no_bol b)"
| "no_bol (Alt a b) = (no_bol a \<and> no_bol b)"
| "no_bol (Star a) = no_bol a"
| "no_bol (Plus a) = no_bol a"
| "no_bol (Opt a) = no_bol a"
| "no_bol (Grp x a) = no_bol a"
| "no_bol Bol = False"
| "no_bol Eol = True"

text \<open>
  Relations between the state \<open>st\<close> at which a pattern starts and a state \<open>st'\<close> it can
  end in: the consumed text has only characters in \<open>P\<close>; the input did not grow; the
  group \<open>nm\<close> is untouched; a group \<open>nm\<close> that was set stays set.
\<close>

definition eats :: "(char \<Rightarrow> bool) \<Rightarrow> mstate \<Rightarrow> mstate \<Rightarrow> bool" where
  "eats P st st' = (\<exists>u. fst st = u @ fst st' \<and> list_all P u)"

definition shorter :: "mstate \<Rightarrow> mstate \<Rightarrow> bool" where
  "shorter st st' = (length (fst st') \<le> length (fst st))"

definition same_at :: "string \<Rightarrow> mstate \<Rightarrow> mstate \<Rightarrow> bool" where
  "same_at nm st st' = (length (fst st') \<le> length (fst st) \<and> map_of (snd st') nm = map_of (snd st) nm)"

definition keeps_set :: "string \<Rightarrow> mstate \<Rightarrow> mstate \<Rightarrow> bool" where
  "keeps_set nm st st' = (length (fst st') \<le> length (fst st) \<and>
     (map_of (snd st) nm \<noteq> None \<longrightarrow> map_of (snd st') nm \<noteq> None))"

text \<open>
  \<open>captured a V\<close>: whatever text \<open>a\<close> matches satisfies \<open>V\<close>. \<open>grp_inv nm V r\<close>: this holds
  for the body of every group named \<open>nm\<close> in \<open>r\<close>, so that a match of \<open>r\<close> keeps the
  property \<open>vals_ok nm V\<close> of the captures.
\<close>

definition captured :: "regex \<Rightarrow> (string \<Rightarrow> bool) \<Rightarrow> bool" where
  "captured a V = (\<forall>n st s1. s1 \<in> set (matches n a st) \<longrightarrow>
      V (take (length (fst st) - length (fst s1)) (fst st)))"

primrec grp_inv :: "string \<Rightarrow> (string \<Rightarrow> bool) \<Rightarrow> regex \<Rightarrow> bool" where
  "grp_inv nm V (Lit w) = True"
| "grp_inv nm V (Cls p) = True"
| "grp_inv nm V (Seq a b) = (grp_inv nm V a \<and> grp_inv nm V b)"
| "grp_inv nm V (Alt a b) = (grp_inv nm V a \<and> grp_inv nm V b)"
| "grp_inv nm V (Star a) = grp_inv nm V a"
| "grp_inv nm V (Plus a) = grp_inv nm V a"
| "grp_inv nm V (Opt a) = grp_inv nm V a"
| "grp_inv nm V (Grp x a) = (grp_inv nm V a \<and> (x = nm \<longrightarrow> captured a V))"
| "grp_inv nm V Bol = True"
| "grp_inv nm V Eol = True"

definition vals_ok :: "string \<Rightarrow> (string \<Rightarrow> bool) \<Rightarrow> captures \<Rightarrow> bool" where
  "vals_ok nm V c = (\<forall>v. map_of c nm = Some v \<longrightarrow> V v)"

definition keeps_val :: "string \<Rightarrow> (string \<Rightarrow> bool) \<Rightarrow> mstate \<Rightarrow> mstate \<Rightarrow> bool" where
  "keeps_val nm V st st' = (length (fst st') \<le> length (fst st) \<and>
     (vals_ok nm V (snd st) \<longrightarrow> vals_ok nm V (snd st')))"

text \<open>The part of \<open>RE_VAR_LINE\<close> that follows the token \<open>input\<close> or \<open>output\<close>.\<close>

definition var_tail :: regex where
  "var_tail = cat [
     Lit '' '',
     Grp ''type'' (Lit ''integer''),
     Lit [CHR '' '', CHR 0x22],
     Grp ''name'' (Plus (Cls not_dquote)),
     Lit [CHR 0x22, CHR '' '', CHR ''[''],
     Star (Cls is_space),
     Grp ''inputs'' (Plus (Seq (Plus (Cls is_digit)) (Cls is_space))),
     Lit '']'']"

section \<open>Repetition and the matcher: a proof rule\<close>

text \<open>
  The fuel of \<open>star\<close> is never the reason to stop: with at least as much fuel as input
  left, one more unit changes nothing. A reflexive and transitive relation between states
  that every leaf and every group of a pattern respects holds between the start and every
  result of a match.
\<close>

lemma star_fuel: "length (fst st) \<le> k \<Longrightarrow> star f (Suc k) st = star f k st"
proof (induction k arbitrary: st)
  case 0
  then show ?case by simp
next
  case (Suc k)
  let ?F = "filter (\<lambda>st'. length (fst st') < length (fst st)) (f st)"
  have eq: "map (star f (Suc k)) ?F = map (star f k) ?F"
  proof (rule map_cong[OF refl])
    fix x assume "x \<in> set ?F"
    then have "length (fst x) \<le> k" using Suc.prems by simp
    then show "star f (Suc k) x = star f k x" by (rule Suc.IH)
  qed
  have "star f (Suc (Suc k)) st = concat (map (star f (Suc k)) ?F) @ [st]"
    by (rule star.simps(2))
  also have "\<dots> = concat (map (star f k) ?F) @ [st]" by (simp only: eq)
  also have "\<dots> = star f (Suc k) st" by (rule star.simps(2)[symmetric])
  finally show ?case .
qed

lemma star_rel:
  assumes step: "\<And>s s'. s' \<in> set (f s) \<Longrightarrow> R s s'"
    and refl: "\<And>s. R s s"
    and trans: "\<And>a b c. R a b \<Longrightarrow> R b c \<Longrightarrow> R a c"
  shows "st' \<in> set (star f k st) \<Longrightarrow> R st st'"
proof (induction k arbitrary: st)
  case 0
  then show ?case by (simp add: refl)
next
  case (Suc k)
  from Suc.prems consider "st' = st"
    | s1 where "s1 \<in> set (f st)" "st' \<in> set (star f k s1)"
    by auto
  then show ?case
  proof cases
    case 1
    then show ?thesis by (simp add: refl)
  next
    case 2
    then show ?thesis using step Suc.IH trans by blast
  qed
qed

lemma matches_rel:
  fixes R :: "mstate \<Rightarrow> mstate \<Rightarrow> bool" and ok :: "regex \<Rightarrow> bool"
  assumes refl: "\<And>s. R s s"
    and trans: "\<And>a b c. R a b \<Longrightarrow> R b c \<Longrightarrow> R a c"
    and sub: "\<And>a b. ok (Seq a b) \<Longrightarrow> ok a \<and> ok b" "\<And>a b. ok (Alt a b) \<Longrightarrow> ok a \<and> ok b"
      "\<And>a. ok (Star a) \<Longrightarrow> ok a" "\<And>a. ok (Plus a) \<Longrightarrow> ok a" "\<And>a. ok (Opt a) \<Longrightarrow> ok a"
      "\<And>x a. ok (Grp x a) \<Longrightarrow> ok a"
    and lit: "\<And>w s c. ok (Lit w) \<Longrightarrow> take (length w) s = w \<Longrightarrow> R (s, c) (drop (length w) s, c)"
    and cls: "\<And>p x s c. ok (Cls p) \<Longrightarrow> p x \<Longrightarrow> R (x # s, c) (s, c)"
    and grp: "\<And>x a st s1. ok (Grp x a) \<Longrightarrow> s1 \<in> set (matches n a st) \<Longrightarrow> R st s1 \<Longrightarrow>
        length (fst s1) \<le> length (fst st) \<Longrightarrow>
        R st (fst s1, (x, take (length (fst st) - length (fst s1)) (fst st)) # snd s1)"
    and len: "\<And>a b. R a b \<Longrightarrow> length (fst b) \<le> length (fst a)"
  shows "ok r \<Longrightarrow> st' \<in> set (matches n r st) \<Longrightarrow> R st st'"
proof (induction r arbitrary: st st')
  case (Lit w)
  then show ?case using lit[of w "fst st" "snd st"] by (auto split: if_splits)
next
  case (Cls p)
  then show ?case using cls[of p _ _ "snd st"] by (cases st; cases "fst st") (auto split: if_splits)
next
  case (Seq a b)
  from Seq.prems(2) obtain s1 where s1: "s1 \<in> set (matches n a st)" "st' \<in> set (matches n b s1)"
    by auto
  have "R st s1" using Seq.IH(1) sub(1)[OF Seq.prems(1)] s1(1) by blast
  moreover have "R s1 st'" using Seq.IH(2) sub(1)[OF Seq.prems(1)] s1(2) by blast
  ultimately show ?case by (rule trans)
next
  case (Alt a b)
  from Alt.prems(2) have "st' \<in> set (matches n a st) \<or> st' \<in> set (matches n b st)" by auto
  then show ?case using Alt.IH sub(2)[OF Alt.prems(1)] by blast
next
  case (Star a)
  have step: "\<And>s s'. s' \<in> set (matches n a s) \<Longrightarrow> R s s'"
    using Star.IH sub(3)[OF Star.prems(1)] by blast
  from Star.prems(2) have "st' \<in> set (star (matches n a) (length (fst st)) st)" by simp
  then show ?case
    by (rule star_rel[where f = "matches n a" and R = R, rotated 3]) (fact step refl trans)+
next
  case (Plus a)
  have step: "\<And>s s'. s' \<in> set (matches n a s) \<Longrightarrow> R s s'"
    using Plus.IH sub(4)[OF Plus.prems(1)] by blast
  from Plus.prems(2) obtain s1 where s1: "s1 \<in> set (matches n a st)"
    "st' \<in> set (star (matches n a) (length (fst s1)) s1)" by auto
  have "R st s1" using step s1(1) .
  moreover have "R s1 st'" using s1(2)
    by (rule star_rel[where f = "matches n a" and R = R, rotated 3]) (fact step refl trans)+
  ultimately show ?case by (rule trans)
next
  case (Opt a)
  from Opt.prems(2) have "st' \<in> set (matches n a st) \<or> st' = st" by auto
  then show ?case using Opt.IH sub(5)[OF Opt.prems(1)] refl by blast
next
  case (Grp x a)
  from Grp.prems(2) obtain s1 where s1: "s1 \<in> set (matches n a st)"
    "st' = (fst s1, (x, take (length (fst st) - length (fst s1)) (fst st)) # snd s1)" by auto
  have "R st s1" using Grp.IH sub(6)[OF Grp.prems(1)] s1(1) by blast
  then show ?case using grp[OF Grp.prems(1) s1(1)] len s1(2) by blast
next
  case Bol
  then show ?case by (auto simp: refl split: if_splits)
next
  case Eol
  then show ?case by (auto simp: refl split: if_splits)
qed

section \<open>What a match consumes and captures\<close>

lemma eats_refl: "eats P st st"
  by (simp add: eats_def)

lemma eats_trans: "eats P a b \<Longrightarrow> eats P b c \<Longrightarrow> eats P a c"
  unfolding eats_def by (metis append.assoc list_all_append)

lemma matches_eats:
  assumes "chars_ok P r" "st' \<in> set (matches n r st)"
  shows "eats P st st'"
proof (rule matches_rel[where ok = "chars_ok P" and R = "eats P" and r = r and n = n])
  show "\<And>w s c. chars_ok P (Lit w) \<Longrightarrow> take (length w) s = w \<Longrightarrow> eats P (s, c) (drop (length w) s, c)"
    unfolding eats_def by (metis append_take_drop_id chars_ok.simps(1) fst_conv)
  show "\<And>a b c. eats P a b \<Longrightarrow> eats P b c \<Longrightarrow> eats P a c" by (rule eats_trans)
qed (use assms in \<open>auto simp: eats_def\<close>)

lemma matches_same_at:
  assumes "nm \<notin> names r" "st' \<in> set (matches n r st)"
  shows "same_at nm st st'"
  by (rule matches_rel[where ok = "\<lambda>r. nm \<notin> names r" and R = "same_at nm" and r = r and n = n])
    (use assms in \<open>auto simp: same_at_def\<close>)

lemma matches_shorter:
  assumes "st' \<in> set (matches n r st)"
  shows "length (fst st') \<le> length (fst st)"
proof -
  have "shorter st st'"
    by (rule matches_rel[where ok = "\<lambda>r. True" and R = shorter and r = r and n = n])
      (use assms in \<open>auto simp: shorter_def\<close>)
  then show ?thesis by (simp add: shorter_def)
qed

lemma star_shorter:
  "st' \<in> set (star (matches n a) k st) \<Longrightarrow> length (fst st') \<le> length (fst st)"
  using star_rel[where f = "matches n a" and R = shorter and k = k and st = st and st' = st']
    matches_shorter[of _ n a] by (auto simp: shorter_def)

lemma matches_nonnull:
  "nonnull r \<Longrightarrow> st' \<in> set (matches n r st) \<Longrightarrow> length (fst st') < length (fst st)"
proof (induction r arbitrary: st st')
  case (Lit w)
  then show ?case by (cases "fst st") (auto split: if_splits)
next
  case (Cls p)
  then show ?case by (cases "fst st") (auto split: if_splits)
next
  case (Seq a b)
  from Seq.prems(2) obtain s1 where s1: "s1 \<in> set (matches n a st)" "st' \<in> set (matches n b s1)"
    by auto
  have le: "length (fst s1) \<le> length (fst st)" "length (fst st') \<le> length (fst s1)"
    using s1 matches_shorter by blast+
  from Seq.prems(1) have "nonnull a \<or> nonnull b" by simp
  then show ?case
  proof
    assume "nonnull a"
    then have "length (fst s1) < length (fst st)" using Seq.IH(1) s1(1) by blast
    then show ?thesis using le(2) by simp
  next
    assume "nonnull b"
    then have "length (fst st') < length (fst s1)" using Seq.IH(2) s1(2) by blast
    then show ?thesis using le(1) by simp
  qed
next
  case (Alt a b)
  from Alt.prems(2) have "st' \<in> set (matches n a st) \<or> st' \<in> set (matches n b st)" by auto
  moreover from Alt.prems(1) have "nonnull a" "nonnull b" by simp_all
  ultimately show ?case using Alt.IH by blast
next
  case (Plus a)
  from Plus.prems(2) obtain s1 where s1: "s1 \<in> set (matches n a st)"
    "st' \<in> set (star (matches n a) (length (fst s1)) s1)" by auto
  have "length (fst s1) < length (fst st)" using Plus.IH Plus.prems(1) s1(1) by simp
  moreover have "length (fst st') \<le> length (fst s1)" using s1(2) by (rule star_shorter)
  ultimately show ?case by simp
next
  case (Grp x a)
  from Grp.prems(2) obtain s1 where s1: "s1 \<in> set (matches n a st)" "fst st' = fst s1" by auto
  then show ?case using Grp.IH Grp.prems(1) by simp
qed simp_all

lemma matches_keeps_set:
  assumes "st' \<in> set (matches n r st)"
  shows "keeps_set nm st st'"
  by (rule matches_rel[where ok = "\<lambda>r. True" and R = "keeps_set nm" and r = r and n = n])
    (use assms in \<open>auto simp: keeps_set_def\<close>)

lemma star_keeps_set:
  "st' \<in> set (star (matches n a) k st) \<Longrightarrow> keeps_set nm st st'"
  by (rule star_rel[where f = "matches n a" and R = "keeps_set nm"])
    (auto simp: keeps_set_def dest: matches_keeps_set[where nm = nm])

lemma matches_sets:
  "sets nm r \<Longrightarrow> st' \<in> set (matches n r st) \<Longrightarrow> map_of (snd st') nm \<noteq> None"
proof (induction r arbitrary: st st')
  case (Seq a b)
  from Seq.prems(2) obtain s1 where s1: "s1 \<in> set (matches n a st)" "st' \<in> set (matches n b s1)"
    by auto
  from Seq.prems(1) have "sets nm a \<or> sets nm b" by simp
  then show ?case
  proof
    assume "sets nm a"
    then have "map_of (snd s1) nm \<noteq> None" using Seq.IH(1) s1(1) by blast
    then show ?thesis using matches_keeps_set[OF s1(2), of nm] by (simp add: keeps_set_def)
  next
    assume "sets nm b"
    then show ?thesis using Seq.IH(2) s1(2) by blast
  qed
next
  case (Alt a b)
  from Alt.prems(2) have "st' \<in> set (matches n a st) \<or> st' \<in> set (matches n b st)" by auto
  moreover from Alt.prems(1) have "sets nm a" "sets nm b" by simp_all
  ultimately show ?case using Alt.IH by blast
next
  case (Plus a)
  from Plus.prems(2) obtain s1 where s1: "s1 \<in> set (matches n a st)"
    "st' \<in> set (star (matches n a) (length (fst s1)) s1)" by auto
  have "map_of (snd s1) nm \<noteq> None" using Plus.IH Plus.prems(1) s1(1) by simp
  then show ?case using star_keeps_set[OF s1(2), of nm] by (simp add: keeps_set_def)
next
  case (Grp x a)
  from Grp.prems(2) obtain s1 where s1: "s1 \<in> set (matches n a st)"
    "st' = (fst s1, (x, take (length (fst st) - length (fst s1)) (fst st)) # snd s1)" by auto
  show ?case
  proof (cases "x = nm")
    case True
    then show ?thesis using s1(2) by simp
  next
    case False
    then have "map_of (snd s1) nm \<noteq> None" using Grp.IH Grp.prems(1) s1(1) by simp
    then show ?thesis using s1(2) False by simp
  qed
qed simp_all

lemma keeps_val_trans: "keeps_val nm V a b \<Longrightarrow> keeps_val nm V b c \<Longrightarrow> keeps_val nm V a c"
  by (simp add: keeps_val_def)

lemma capturedD:
  assumes "captured a V" "s1 \<in> set (matches n a st)"
  shows "V (take (length (fst st) - length (fst s1)) (fst st))"
  by (rule assms(1)[unfolded captured_def, rule_format, OF assms(2)])

lemma vals_ok_Cons:
  "vals_ok nm V ((x, u) # c) = (if x = nm then V u else vals_ok nm V c)"
  by (simp add: vals_ok_def)

lemma keeps_val_grp:
  assumes g: "grp_inv nm V (Grp x a)" and m: "s1 \<in> set (matches n a st)"
    and k: "keeps_val nm V st s1"
  shows "keeps_val nm V st (fst s1, (x, take (length (fst st) - length (fst s1)) (fst st)) # snd s1)"
proof (cases "x = nm")
  case True
  from g have "x = nm \<longrightarrow> captured a V" by simp
  with True have "captured a V" by (rule rev_mp)
  then have "V (take (length (fst st) - length (fst s1)) (fst st))"
    using m by (rule capturedD)
  moreover from k have "length (fst s1) \<le> length (fst st)" by (simp add: keeps_val_def)
  ultimately show ?thesis using True by (simp add: keeps_val_def vals_ok_Cons)
next
  case False
  from k have "length (fst s1) \<le> length (fst st)"
    "vals_ok nm V (snd st) \<longrightarrow> vals_ok nm V (snd s1)" by (simp_all add: keeps_val_def)
  then show ?thesis using False by (simp add: keeps_val_def vals_ok_Cons)
qed

lemma matches_keeps_val:
  assumes "grp_inv nm V r" "st' \<in> set (matches n r st)"
  shows "keeps_val nm V st st'"
proof (rule matches_rel[where ok = "grp_inv nm V" and R = "keeps_val nm V" and r = r and n = n])
  show "\<And>a b c. keeps_val nm V a b \<Longrightarrow> keeps_val nm V b c \<Longrightarrow> keeps_val nm V a c"
    by (rule keeps_val_trans)
  show "\<And>x a st s1. grp_inv nm V (Grp x a) \<Longrightarrow> s1 \<in> set (matches n a st) \<Longrightarrow>
      keeps_val nm V st s1 \<Longrightarrow> length (fst s1) \<le> length (fst st) \<Longrightarrow>
      keeps_val nm V st (fst s1, (x, take (length (fst st) - length (fst s1)) (fst st)) # snd s1)"
    by (rule keeps_val_grp)
  show "\<And>s. keeps_val nm V s s" by (simp add: keeps_val_def)
  show "\<And>w s c. grp_inv nm V (Lit w) \<Longrightarrow> take (length w) s = w \<Longrightarrow>
      keeps_val nm V (s, c) (drop (length w) s, c)" by (simp add: keeps_val_def)
  show "\<And>p x s c. grp_inv nm V (Cls p) \<Longrightarrow> p x \<Longrightarrow> keeps_val nm V (x # s, c) (s, c)"
    by (simp add: keeps_val_def)
  show "\<And>a b. keeps_val nm V a b \<Longrightarrow> length (fst b) \<le> length (fst a)"
    by (simp add: keeps_val_def)
  show "grp_inv nm V r" by (rule assms)
  show "st' \<in> set (matches n r st)" by (rule assms)
qed simp_all

lemma captured_chars:
  assumes "chars_ok P a" "nonnull a"
  shows "captured a (\<lambda>v. v \<noteq> [] \<and> list_all P v)"
  unfolding captured_def
proof (intro allI impI)
  fix n st s1
  assume m: "s1 \<in> set (matches n a st)"
  from matches_eats[OF assms(1) m] obtain u where u: "fst st = u @ fst s1" "list_all P u"
    by (auto simp: eats_def)
  from matches_nonnull[OF assms(2) m] u(1) have "u \<noteq> []" by auto
  moreover have "take (length (fst st) - length (fst s1)) (fst st) = u" using u(1) by simp
  ultimately show "take (length (fst st) - length (fst s1)) (fst st) \<noteq> [] \<and>
      list_all P (take (length (fst st) - length (fst s1)) (fst st))" using u(2) by simp
qed

lemma captured_Lit: "captured (Lit w) (\<lambda>v. v = w)"
  unfolding captured_def
proof (intro allI impI)
  fix n st s1
  assume "s1 \<in> set (matches n (Lit w) st)"
  then have h: "take (length w) (fst st) = w" "fst s1 = drop (length w) (fst st)"
    by (auto split: if_splits)
  from arg_cong[OF h(1), of length] have "length w \<le> length (fst st)" by simp
  then have "length (fst st) - length (fst s1) = length w" using h(2) by simp
  then show "take (length (fst st) - length (fst s1)) (fst st) = w" using h(1) by simp
qed

lemma captured_digits: "captured (Plus (Cls is_digit)) (\<lambda>v. v \<noteq> [] \<and> list_all is_digit v)"
  by (rule captured_chars) simp_all

lemma unchanged:
  "nm \<notin> names r \<Longrightarrow> st' \<in> set (matches n r st) \<Longrightarrow> map_of (snd st') nm = map_of (snd st) nm"
  using matches_same_at[of nm r st' n st] by (simp add: same_at_def)

lemma seq_split:
  assumes "st' \<in> set (matches n (Seq a b) st)"
  obtains s1 where "s1 \<in> set (matches n a st)" "st' \<in> set (matches n b s1)"
  using assms by auto

lemma matches_no_bol: "no_bol r \<Longrightarrow> matches n r = matches n' r"
proof (induction r)
  case (Seq a b)
  then have "matches n a = matches n' a" "matches n b = matches n' b" by simp_all
  then show ?case by (intro ext) simp
next
  case (Alt a b)
  then have "matches n a = matches n' a" "matches n b = matches n' b" by simp_all
  then show ?case by (intro ext) simp
next
  case (Star a)
  then have "matches n a = matches n' a" by simp
  then show ?case by (intro ext) simp
next
  case (Plus a)
  then have "matches n a = matches n' a" by simp
  then show ?case by (intro ext) simp
next
  case (Opt a)
  then have "matches n a = matches n' a" by simp
  then show ?case by (intro ext) simp
next
  case (Grp x a)
  then have "matches n a = matches n' a" by simp
  then show ?case by (intro ext) simp
qed (simp_all add: fun_eq_iff)

section \<open>The groups of a successful match\<close>

lemma re_match_state:
  assumes "re_match r s = Some m"
  obtains st' where "st' \<in> set (matches (length s) r (s, []))" "snd st' = m"
proof (cases "matches (length s) r (s, [])")
  case Nil
  then show ?thesis using assms by (simp add: re_match_def)
next
  case (Cons a as)
  then have "a \<in> set (matches (length s) r (s, []))" "snd a = m"
    using assms by (simp_all add: re_match_def)
  then show ?thesis by (rule that)
qed

lemma re_match_sets:
  assumes "re_match r s = Some m" "sets nm r"
  shows "group_of m nm \<noteq> None"
proof -
  from assms(1) obtain st' where st: "st' \<in> set (matches (length s) r (s, []))" "snd st' = m"
    by (rule re_match_state)
  from matches_sets[OF assms(2) st(1)] st(2) show ?thesis by (simp add: group_of_def)
qed

lemma re_match_val:
  assumes "re_match r s = Some m" "grp_inv nm V r" "group_of m nm = Some v"
  shows "V v"
proof -
  from assms(1) obtain st' where st: "st' \<in> set (matches (length s) r (s, []))" "snd st' = m"
    by (rule re_match_state)
  from matches_keeps_val[OF assms(2) st(1)] have "\<forall>v. map_of (snd st') nm = Some v \<longrightarrow> V v"
    by (simp add: keeps_val_def vals_ok_def)
  then show ?thesis using st(2) assms(3) by (simp add: group_of_def)
qed

section \<open>Tokens and integers\<close>

lemma digit_val_nonneg: "is_digit c \<Longrightarrow> 0 \<le> digit_val c"
  by (auto simp: is_digit_def digit_val_def)

lemma foldl_digits_nonneg:
  "list_all is_digit s \<Longrightarrow> 0 \<le> k \<Longrightarrow> 0 \<le> foldl (\<lambda>n c. 10 * n + digit_val c) k s"
proof (induction s arbitrary: k)
  case Nil
  then show ?case by simp
next
  case (Cons c s)
  then have "0 \<le> 10 * k + digit_val c" using digit_val_nonneg[of c] by simp
  then show ?case using Cons by simp
qed

lemma py_int_digits:
  assumes "s \<noteq> []" "list_all is_digit s"
  obtains k where "py_int s = Some k" "0 \<le> k"
  using assms foldl_digits_nonneg[of s 0] by (simp add: py_int_def)

lemma split_acc_tokens:
  "list_all is_digit cur \<Longrightarrow> list_all (\<lambda>c. is_digit c \<or> is_space c) s \<Longrightarrow>
     \<forall>t \<in> set (split_acc cur s). t \<noteq> [] \<and> list_all is_digit t"
proof (induction s arbitrary: cur)
  case Nil
  then show ?case by simp
next
  case (Cons c s)
  show ?case
  proof (cases "is_space c")
    case True
    then show ?thesis using Cons.IH[of "[]"] Cons.prems by simp
  next
    case False
    then have "list_all is_digit (cur @ [c])" using Cons.prems by simp
    then show ?thesis using Cons.IH[of "cur @ [c]"] Cons.prems False by simp
  qed
qed

lemma ints_of_tokens_digits:
  "\<forall>t \<in> set ts. t \<noteq> [] \<and> list_all is_digit t \<Longrightarrow>
     \<exists>ks. ints_of_tokens ts = Inr ks \<and> length ks = length ts"
proof (induction ts)
  case Nil
  then show ?case by simp
next
  case (Cons t ts)
  then obtain ks where ks: "ints_of_tokens ts = Inr ks" "length ks = length ts" by auto
  from Cons.prems obtain k where "py_int t = Some k" by (auto elim: py_int_digits)
  then show ?case using ks by (simp add: obind_def)
qed

lemma ints_of_split:
  assumes "list_all (\<lambda>c. is_digit c \<or> is_space c) s"
  obtains ks where "ints_of_tokens (split s) = Inr ks" "length ks = length (split s)"
  using ints_of_tokens_digits[OF split_acc_tokens[of "[]" s]] assms
  unfolding split_def by auto

section \<open>The groups of a gate line\<close>

text \<open>
  A line that matches \<open>RE_GATE_LINE\<close> went through exactly one of the two alternatives:
  either \<open>is_input\<close> is set and \<open>arity\<close>, \<open>table\<close> and \<open>inputs\<close> are not, or the other way
  round; the texts of the groups are digits (and whitespace), so no \<open>int\<close> call fails and
  \<open>Gate.from_line\<close> never raises.
\<close>

lemma gate_wire:
  assumes "re_match RE_GATE_LINE s = Some m"
  obtains w where "group_of m ''wire'' = Some w" "w \<noteq> []" "list_all is_digit w"
proof -
  have "sets ''wire'' RE_GATE_LINE" by (simp add: RE_GATE_LINE_def)
  from re_match_sets[OF assms this] obtain w where w: "group_of m ''wire'' = Some w" by auto
  have "grp_inv ''wire'' (\<lambda>v. v \<noteq> [] \<and> list_all is_digit v) RE_GATE_LINE"
    by (simp add: RE_GATE_LINE_def RE_GATE_BODY_def captured_digits)
  from re_match_val[OF assms this w] show ?thesis using w that by blast
qed

lemma gate_arity_val:
  assumes "re_match RE_GATE_LINE s = Some m" "group_of m ''arity'' = Some a"
  shows "a \<noteq> [] \<and> list_all is_digit a"
proof -
  have "grp_inv ''arity'' (\<lambda>v. v \<noteq> [] \<and> list_all is_digit v) RE_GATE_LINE"
    by (simp add: RE_GATE_LINE_def RE_GATE_BODY_def captured_digits)
  from re_match_val[OF assms(1) this assms(2)] show ?thesis .
qed

lemma gate_table_val:
  assumes "re_match RE_GATE_LINE s = Some m" "group_of m ''table'' = Some t"
  shows "t \<noteq> [] \<and> list_all (\<lambda>c. is_digit c \<or> is_space c) t"
proof -
  have "captured (Plus (Seq (Cls is_bit01) (Opt (Cls is_space))))
      (\<lambda>v. v \<noteq> [] \<and> list_all (\<lambda>c. is_digit c \<or> is_space c) v)"
    by (rule captured_chars) (simp_all add: is_bit01_def is_digit_def)
  then have "grp_inv ''table'' (\<lambda>v. v \<noteq> [] \<and> list_all (\<lambda>c. is_digit c \<or> is_space c) v) RE_GATE_LINE"
    by (simp add: RE_GATE_LINE_def RE_GATE_BODY_def)
  from re_match_val[OF assms(1) this assms(2)] show ?thesis .
qed

lemma gate_inputs_val:
  assumes "re_match RE_GATE_LINE s = Some m" "group_of m ''inputs'' = Some i"
  shows "i \<noteq> [] \<and> list_all (\<lambda>c. is_digit c \<or> is_space c) i"
proof -
  have "captured (Seq (Plus (Cls is_digit)) (Cls is_space))
      (\<lambda>v. v \<noteq> [] \<and> list_all (\<lambda>c. is_digit c \<or> is_space c) v)"
    by (rule captured_chars) simp_all
  then have "grp_inv ''inputs'' (\<lambda>v. v \<noteq> [] \<and> list_all (\<lambda>c. is_digit c \<or> is_space c) v) RE_GATE_LINE"
    by (simp add: RE_GATE_LINE_def RE_GATE_BODY_def)
  from re_match_val[OF assms(1) this assms(2)] show ?thesis .
qed

lemma gate_is_input_val:
  assumes "re_match RE_GATE_LINE s = Some m" "group_of m ''is_input'' = Some v"
  shows "v = ''input''"
proof -
  have "grp_inv ''is_input'' (\<lambda>v. v = ''input'') RE_GATE_LINE"
    by (simp add: RE_GATE_LINE_def RE_GATE_BODY_def captured_Lit)
  from re_match_val[OF assms(1) this assms(2)] show ?thesis .
qed

lemma gate_alternatives:
  assumes "re_match RE_GATE_LINE s = Some m"
  shows "(group_of m ''is_input'' \<noteq> None \<and> group_of m ''arity'' = None \<and> group_of m ''table'' = None
            \<and> group_of m ''inputs'' = None)
       \<or> (group_of m ''is_input'' = None \<and> group_of m ''arity'' \<noteq> None \<and> group_of m ''table'' \<noteq> None
            \<and> group_of m ''inputs'' \<noteq> None)"
proof -
  define pre where "pre = Seq (Grp ''wire'' (Plus (Cls is_digit))) (Lit '' '')"
  define inp where "inp = Grp ''is_input'' (Lit ''input'')"
  define post where "post = Seq (Opt (Grp ''comment''
      (cat [Star (Cls is_space), Lit ''//'', Star (Cls not_newline)]))) Eol"
  from assms obtain st' where st': "st' \<in> set (matches (length s) RE_GATE_LINE (s, []))"
    "snd st' = m" by (rule re_match_state)
  let ?n = "length s"
  have shape: "RE_GATE_LINE = Seq Bol (Seq (Grp ''wire'' (Plus (Cls is_digit)))
      (Seq (Lit '' '') (Seq (Alt RE_GATE_BODY inp) post)))"
    by (simp add: RE_GATE_LINE_def inp_def post_def)
  from st'(1) obtain s1 where s1: "s1 \<in> set (matches ?n Bol (s, []))"
    and r1: "st' \<in> set (matches ?n (Seq (Grp ''wire'' (Plus (Cls is_digit)))
      (Seq (Lit '' '') (Seq (Alt RE_GATE_BODY inp) post))) s1)"
    unfolding shape by (rule seq_split)
  from r1 obtain s2 where s2: "s2 \<in> set (matches ?n (Grp ''wire'' (Plus (Cls is_digit))) s1)"
    and r2: "st' \<in> set (matches ?n (Seq (Lit '' '') (Seq (Alt RE_GATE_BODY inp) post)) s2)"
    by (rule seq_split)
  from r2 obtain s3 where s3: "s3 \<in> set (matches ?n (Lit '' '') s2)"
    and r3: "st' \<in> set (matches ?n (Seq (Alt RE_GATE_BODY inp) post) s3)"
    by (rule seq_split)
  from r3 obtain s4 where s4: "s4 \<in> set (matches ?n (Alt RE_GATE_BODY inp) s3)"
    and r4: "st' \<in> set (matches ?n post s4)"
    by (rule seq_split)
  have start: "map_of (snd s3) nm = None" if "nm \<noteq> ''wire''" for nm
  proof -
    have "map_of (snd s1) nm = map_of (snd (s, [])) nm"
      by (rule unchanged[OF _ s1]) simp
    moreover have "map_of (snd s2) nm = map_of (snd s1) nm"
      by (rule unchanged[OF _ s2]) (use that in simp)
    moreover have "map_of (snd s3) nm = map_of (snd s2) nm"
      by (rule unchanged[OF _ s3]) simp
    ultimately show ?thesis by simp
  qed
  have finish: "map_of m nm = map_of (snd s4) nm" if "nm \<noteq> ''comment''" for nm
  proof -
    have "nm \<notin> names post" using that by (simp add: post_def)
    from unchanged[OF this r4] show ?thesis using st'(2) by simp
  qed
  from s4 have "s4 \<in> set (matches ?n RE_GATE_BODY s3) \<or> s4 \<in> set (matches ?n inp s3)" by simp
  then show ?thesis
  proof
    assume body: "s4 \<in> set (matches ?n RE_GATE_BODY s3)"
    have "map_of (snd s4) ''arity'' \<noteq> None"
      by (rule matches_sets[OF _ body]) (simp add: RE_GATE_BODY_def)
    moreover have "map_of (snd s4) ''table'' \<noteq> None"
      by (rule matches_sets[OF _ body]) (simp add: RE_GATE_BODY_def)
    moreover have "map_of (snd s4) ''inputs'' \<noteq> None"
      by (rule matches_sets[OF _ body]) (simp add: RE_GATE_BODY_def)
    moreover have "map_of (snd s4) ''is_input'' = map_of (snd s3) ''is_input''"
      by (rule unchanged[OF _ body]) (simp add: RE_GATE_BODY_def)
    ultimately show ?thesis using start[of "''is_input''"] finish
      by (simp add: group_of_def)
  next
    assume i: "s4 \<in> set (matches ?n inp s3)"
    have "map_of (snd s4) ''is_input'' \<noteq> None"
      by (rule matches_sets[OF _ i]) (simp add: inp_def)
    moreover have "map_of (snd s4) nm = map_of (snd s3) nm" if "nm \<noteq> ''is_input''" for nm
      by (rule unchanged[OF _ i]) (use that in \<open>simp add: inp_def\<close>)
    ultimately show ?thesis using start finish by (simp add: group_of_def)
  qed
qed

lemma Gate_of_match_input:
  assumes m: "re_match RE_GATE_LINE s = Some m" and i: "group_of m ''is_input'' \<noteq> None"
  shows "\<exists>w c. Gate_of_match lineno line m =
      Inr (Inr \<lparr>is_input = True, is_output = (group_of m ''is_output'' = Some ''output ''), wire = w,
                arity = None, table = PyNone, inputs = PyNone, comment = c\<rparr>)"
proof -
  from gate_alternatives[OF m] i have none: "group_of m ''arity'' = None" "group_of m ''table'' = None"
    "group_of m ''inputs'' = None" by auto
  from i gate_is_input_val[OF m] have inp: "group_of m ''is_input'' = Some ''input''" by auto
  from gate_wire[OF m] obtain w where w: "group_of m ''wire'' = Some w" "w \<noteq> []" "list_all is_digit w" .
  from py_int_digits[OF w(2,3)] obtain k where k: "py_int w = Some k" by blast
  show ?thesis
    by (simp add: Gate_of_match_def none inp w(1) k int_of_group_def arity_of_group_def
        list_of_group_def Gate_check_table_def obind_def)
qed

lemma Gate_of_match_gate:
  assumes m: "re_match RE_GATE_LINE s = Some m" and i: "group_of m ''is_input'' = None"
  obtains a t k ks js w c where
    "group_of m ''arity'' = Some a" "py_int a = Some k" "0 \<le> k"
    "group_of m ''table'' = Some t" "ints_of_tokens (split t) = Inr ks" "length ks = length (split t)"
    "Gate_of_match lineno line m =
       (if k > 3 then Inr (Inl (UnsupportedArity lineno line k))
        else if int (length ks) \<noteq> 2 ^ nat k
        then Inr (Inl (TableSizeMismatch lineno line (2 ^ nat k) k (length ks)))
        else Inr (Inr \<lparr>is_input = False, is_output = (group_of m ''is_output'' = Some ''output ''),
                       wire = w, arity = Some k, table = PyList ks, inputs = PyList js,
                       comment = c\<rparr>))"
proof -
  from gate_alternatives[OF m] i obtain a t j where g: "group_of m ''arity'' = Some a"
    "group_of m ''table'' = Some t" "group_of m ''inputs'' = Some j" by auto
  from gate_arity_val[OF m g(1)] have a: "a \<noteq> []" "list_all is_digit a" by simp_all
  from py_int_digits[OF a] obtain k where k: "py_int a = Some k" "0 \<le> k" .
  from gate_table_val[OF m g(2)] have t: "t \<noteq> []" "list_all (\<lambda>c. is_digit c \<or> is_space c) t"
    by simp_all
  from ints_of_split[OF t(2)] obtain ks where ks: "ints_of_tokens (split t) = Inr ks"
    "length ks = length (split t)" .
  from gate_inputs_val[OF m g(3)] have j: "j \<noteq> []" "list_all (\<lambda>c. is_digit c \<or> is_space c) j"
    by simp_all
  from ints_of_split[OF j(2)] obtain js where js: "ints_of_tokens (split j) = Inr js" by blast
  from gate_wire[OF m] obtain w where w: "group_of m ''wire'' = Some w" "w \<noteq> []" "list_all is_digit w" .
  from py_int_digits[OF w(2,3)] obtain kw where kw: "py_int w = Some kw" by blast
  have "Gate_of_match lineno line m =
       (if k > 3 then Inr (Inl (UnsupportedArity lineno line k))
        else if int (length ks) \<noteq> 2 ^ nat k
        then Inr (Inl (TableSizeMismatch lineno line (2 ^ nat k) k (length ks)))
        else Inr (Inr \<lparr>is_input = False, is_output = (group_of m ''is_output'' = Some ''output ''),
                       wire = kw, arity = Some k, table = PyList ks, inputs = PyList js,
                       comment = (case group_of m ''comment'' of None \<Rightarrow> None
                 | Some c \<Rightarrow> if c = [] then Some c else Some (drop 2 (strip c)))\<rparr>))"
    using k(2)
    by (simp add: Gate_of_match_def g i w(1) kw k(1) t(1) j(1) ks(1) js int_of_group_def
        arity_of_group_def list_of_group_def Gate_check_table_def obind_def py_len_def)
  then show ?thesis by (rule that[OF g(1) k g(2) ks])
qed

lemma Gate_from_line_match:
  "Gate_from_line line lineno =
     (case re_match RE_GATE_LINE (strip line) of
        None \<Rightarrow> Inr (Inl (MalformedGateLine lineno (strip line)))
      | Some m \<Rightarrow> Gate_of_match lineno (strip line) m)"
  by (simp add: Gate_from_line_def Let_def)

lemma Gate_from_line_returns: "\<exists>r. Gate_from_line line lineno = Inr r"
proof (cases "re_match RE_GATE_LINE (strip line)")
  case None
  then show ?thesis by (simp add: Gate_from_line_match)
next
  case (Some m)
  show ?thesis
  proof (cases "group_of m ''is_input'' = None")
    case True
    from Gate_of_match_gate[OF Some True, of lineno "strip line"]
    obtain a t k ks js w c where
      "group_of m ''arity'' = Some a" "py_int a = Some k" "0 \<le> k"
      "group_of m ''table'' = Some t" "ints_of_tokens (split t) = Inr ks" "length ks = length (split t)"
      "Gate_of_match lineno (strip line) m =
       (if k > 3 then Inr (Inl (UnsupportedArity lineno (strip line) k))
        else if int (length ks) \<noteq> 2 ^ nat k
        then Inr (Inl (TableSizeMismatch lineno (strip line) (2 ^ nat k) k (length ks)))
        else Inr (Inr \<lparr>is_input = False, is_output = (group_of m ''is_output'' = Some ''output ''),
                       wire = w, arity = Some k, table = PyList ks, inputs = PyList js,
                       comment = c\<rparr>))" .
    then show ?thesis by (simp add: Gate_from_line_match Some)
  next
    case False
    from Gate_of_match_input[OF Some False, of lineno "strip line"]
    show ?thesis by (auto simp: Gate_from_line_match Some)
  qed
qed

section \<open>The groups of a variable line\<close>

lemma var_shape: "RE_VAR_LINE = Seq (Grp ''party'' (Alt (Lit ''Alice'') (Lit ''Bob'')))
      (Seq (Lit '' '') (Seq (Alt (Lit ''input'') (Lit ''output'')) var_tail))"
  by (simp add: RE_VAR_LINE_def var_tail_def)

lemma var_Alice_input:
  "matches n RE_VAR_LINE (''Alice input '' @ rest, [])
     = matches n var_tail ('' '' @ rest, [(''party'', ''Alice'')])"
  unfolding var_shape by simp

lemma var_Alice_output:
  "matches n RE_VAR_LINE (''Alice output '' @ rest, [])
     = matches n var_tail ('' '' @ rest, [(''party'', ''Alice'')])"
  unfolding var_shape by simp

lemma var_Bob_input:
  "matches n RE_VAR_LINE (''Bob input '' @ rest, [])
     = matches n var_tail ('' '' @ rest, [(''party'', ''Bob'')])"
  unfolding var_shape by simp

lemma var_Bob_output:
  "matches n RE_VAR_LINE (''Bob output '' @ rest, [])
     = matches n var_tail ('' '' @ rest, [(''party'', ''Bob'')])"
  unfolding var_shape by simp

lemma var_tail_any_length: "matches n var_tail = matches n' var_tail"
  by (rule matches_no_bol) (simp add: var_tail_def)






section \<open>The assembly loop\<close>

lemma map_fst_od_set:
  "map fst (od_set d k v) = (if k \<in> set (map fst d) then map fst d else map fst d @ [k])"
  by (induction d) force+

lemma keys_od_set: "fst ` set (od_set d k v) = insert k (fst ` set d)"
proof -
  have "set (map fst (od_set d k v)) = insert k (set (map fst d))"
    unfolding map_fst_od_set by auto
  then show ?thesis by simp
qed

lemma od_has_od_set: "od_has (od_set d k v) k' = (k' = k \<or> od_has d k')"
  by (simp add: od_has_def keys_od_set)

lemma strip_Nil: "strip [] = []"
  by (simp add: strip_def)

lemma blank_line_fails: "Gate_from_line [] lineno = Inr (Inl (MalformedGateLine lineno []))"
proof -
  have "re_match RE_GATE_LINE [] = None" by code_simp
  then show ?thesis by (simp add: Gate_from_line_match strip_Nil)
qed

lemma parse_gates_loop_duplicate:
  assumes "j < length ls"
    and "\<forall>k\<le>j. strip (ls ! k) = [] \<or> (\<exists>g. Gate_from_line (strip (ls ! k)) (n + k) = Inr (Inr g))"
    and "Gate_from_line (strip (ls ! j)) (n + j) = Inr (Inr gj)"
    and "od_has ws (wire gj) \<or>
         (\<exists>i<j. \<exists>gi. Gate_from_line (strip (ls ! i)) (n + i) = Inr (Inr gi) \<and> wire gi = wire gj)"
  shows "\<exists>k g ws'. k \<le> j \<and> Gate_from_line (strip (ls ! k)) (n + k) = Inr (Inr g)
           \<and> parse_gates_loop n (take k ls) ws = Inr (Inr ws') \<and> od_has ws' (wire g)
           \<and> parse_gates_loop n ls ws
              = Inr (Inl (DuplicateWire (n + k) (strip (ls ! k)) (wire g), 3))"
  using assms
proof (induction ls arbitrary: n ws j)
  case Nil
  then show ?case by simp
next
  case (Cons l ls)
  show ?case
  proof (cases "strip l = []")
    case True
    have no0: "Gate_from_line (strip l) x \<noteq> Inr (Inr g)" for x g
      using True blank_line_fails by simp
    from Cons.prems(3) no0 obtain j' where j': "j = Suc j'" by (cases j) auto
    have a1: "j' < length ls" using Cons.prems(1) j' by simp
    have a2: "\<forall>k\<le>j'. strip (ls ! k) = [] \<or> (\<exists>g. Gate_from_line (strip (ls ! k)) (Suc n + k) = Inr (Inr g))"
    proof (intro allI impI)
      fix k assume "k \<le> j'"
      then have "Suc k \<le> j" using j' by simp
      from Cons.prems(2)[rule_format, OF this]
      show "strip (ls ! k) = [] \<or> (\<exists>g. Gate_from_line (strip (ls ! k)) (Suc n + k) = Inr (Inr g))"
        by simp
    qed
    have a3: "Gate_from_line (strip (ls ! j')) (Suc n + j') = Inr (Inr gj)"
      using Cons.prems(3) j' by simp
    have a4: "od_has ws (wire gj) \<or>
         (\<exists>i<j'. \<exists>gi. Gate_from_line (strip (ls ! i)) (Suc n + i) = Inr (Inr gi) \<and> wire gi = wire gj)"
    proof -
      from Cons.prems(4) show ?thesis
      proof
        assume "od_has ws (wire gj)" then show ?thesis ..
      next
        assume "\<exists>i<j. \<exists>gi. Gate_from_line (strip ((l # ls) ! i)) (n + i) = Inr (Inr gi) \<and> wire gi = wire gj"
        then obtain i gi where i: "i < j"
          "Gate_from_line (strip ((l # ls) ! i)) (n + i) = Inr (Inr gi)" "wire gi = wire gj" by blast
        from i(2) no0 obtain i' where i': "i = Suc i'" by (cases i) auto
        then have "i' < j'" "Gate_from_line (strip (ls ! i')) (Suc n + i') = Inr (Inr gi)"
          using i j' by simp_all
        then show ?thesis using i(3) by blast
      qed
    qed
    from Cons.IH[OF a1 a2 a3 a4] obtain k g ws' where k: "k \<le> j'"
      "Gate_from_line (strip (ls ! k)) (Suc n + k) = Inr (Inr g)"
      "parse_gates_loop (Suc n) (take k ls) ws = Inr (Inr ws')" "od_has ws' (wire g)"
      "parse_gates_loop (Suc n) ls ws
              = Inr (Inl (DuplicateWire (Suc n + k) (strip (ls ! k)) (wire g), 3))" by blast
    have "Suc k \<le> j \<and> Gate_from_line (strip ((l # ls) ! Suc k)) (n + Suc k) = Inr (Inr g)
           \<and> parse_gates_loop n (take (Suc k) (l # ls)) ws = Inr (Inr ws') \<and> od_has ws' (wire g)
           \<and> parse_gates_loop n (l # ls) ws
              = Inr (Inl (DuplicateWire (n + Suc k) (strip ((l # ls) ! Suc k)) (wire g), 3))"
      using k j' True by simp
    then show ?thesis by blast
  next
    case False
    from Cons.prems(2)[rule_format, of 0] False obtain g0 where
      g0: "Gate_from_line (strip l) n = Inr (Inr g0)" by auto
    show ?thesis
    proof (cases "od_has ws (wire g0)")
      case True
      have "0 \<le> j \<and> Gate_from_line (strip ((l # ls) ! 0)) (n + 0) = Inr (Inr g0)
           \<and> parse_gates_loop n (take 0 (l # ls)) ws = Inr (Inr ws) \<and> od_has ws (wire g0)
           \<and> parse_gates_loop n (l # ls) ws
              = Inr (Inl (DuplicateWire (n + 0) (strip ((l # ls) ! 0)) (wire g0), 3))"
        using g0 True False by (simp add: obind_def)
      then show ?thesis by blast
    next
      case nd: False
      have step: "parse_gates_loop n (l # xs) ws
          = parse_gates_loop (Suc n) xs (od_set ws (wire g0) g0)" for xs
        using g0 nd False by (simp add: obind_def)
      have "j \<noteq> 0"
      proof
        assume "j = 0"
        with Cons.prems(3) g0 have "gj = g0" by simp
        with Cons.prems(4) nd \<open>j = 0\<close> show False by simp
      qed
      then obtain j' where j': "j = Suc j'" by (cases j) auto
      have a1: "j' < length ls" using Cons.prems(1) j' by simp
      have a2: "\<forall>k\<le>j'. strip (ls ! k) = [] \<or> (\<exists>g. Gate_from_line (strip (ls ! k)) (Suc n + k) = Inr (Inr g))"
      proof (intro allI impI)
        fix k assume "k \<le> j'"
        then have "Suc k \<le> j" using j' by simp
        from Cons.prems(2)[rule_format, OF this]
        show "strip (ls ! k) = [] \<or> (\<exists>g. Gate_from_line (strip (ls ! k)) (Suc n + k) = Inr (Inr g))"
          by simp
      qed
      have a3: "Gate_from_line (strip (ls ! j')) (Suc n + j') = Inr (Inr gj)"
        using Cons.prems(3) j' by simp
      have a4: "od_has (od_set ws (wire g0) g0) (wire gj) \<or>
         (\<exists>i<j'. \<exists>gi. Gate_from_line (strip (ls ! i)) (Suc n + i) = Inr (Inr gi) \<and> wire gi = wire gj)"
      proof -
        from Cons.prems(4) show ?thesis
        proof
          assume "od_has ws (wire gj)"
          then show ?thesis by (simp add: od_has_od_set)
        next
          assume "\<exists>i<j. \<exists>gi. Gate_from_line (strip ((l # ls) ! i)) (n + i) = Inr (Inr gi) \<and> wire gi = wire gj"
          then obtain i gi where i: "i < j"
            "Gate_from_line (strip ((l # ls) ! i)) (n + i) = Inr (Inr gi)" "wire gi = wire gj" by blast
          show ?thesis
          proof (cases i)
            case 0
            with i(2) g0 have "gi = g0" by simp
            with i(3) show ?thesis by (simp add: od_has_od_set)
          next
            case (Suc i')
            then have "i' < j'" "Gate_from_line (strip (ls ! i')) (Suc n + i') = Inr (Inr gi)"
              using i j' by simp_all
            then show ?thesis using i(3) by blast
          qed
        qed
      qed
      from Cons.IH[OF a1 a2 a3 a4] obtain k g ws' where k: "k \<le> j'"
        "Gate_from_line (strip (ls ! k)) (Suc n + k) = Inr (Inr g)"
        "parse_gates_loop (Suc n) (take k ls) (od_set ws (wire g0) g0) = Inr (Inr ws')"
        "od_has ws' (wire g)"
        "parse_gates_loop (Suc n) ls (od_set ws (wire g0) g0)
              = Inr (Inl (DuplicateWire (Suc n + k) (strip (ls ! k)) (wire g), 3))" by blast
      have "Suc k \<le> j \<and> Gate_from_line (strip ((l # ls) ! Suc k)) (n + Suc k) = Inr (Inr g)
           \<and> parse_gates_loop n (take (Suc k) (l # ls)) ws = Inr (Inr ws') \<and> od_has ws' (wire g)
           \<and> parse_gates_loop n (l # ls) ws
              = Inr (Inl (DuplicateWire (n + Suc k) (strip ((l # ls) ! Suc k)) (wire g), 3))"
        using k j' step by simp
      then show ?thesis by blast
    qed
  qed
qed

section \<open>The classifiers\<close>

text \<open>
  C9. On every gate, \<open>is_passthru\<close> and \<open>is_not\<close> are never both true, and \<open>is_constant\<close>,
  \<open>is_passthru\<close> and \<open>is_not\<close> exclude each other pairwise; \<open>is_passthru\<close> holds exactly
  when the arity is 1 and the table is \<open>[0, 1]\<close>, \<open>is_not\<close> exactly when the arity is 1
  and the table is \<open>[1, 0]\<close>. This holds for all gate values, parsed ones among them.
\<close>

theorem classifiers_exclusive:
  "\<not> (is_passthru g \<and> is_not g)
   \<and> \<not> (is_constant g \<and> is_passthru g)
   \<and> \<not> (is_constant g \<and> is_not g)
   \<and> is_passthru g = (arity g = Some 1 \<and> table g = PyList [0, 1])
   \<and> is_not g = (arity g = Some 1 \<and> table g = PyList [1, 0])"
  by (auto simp: is_passthru_def is_not_def is_constant_def)

section \<open>The program on concrete inputs\<close>

text \<open>
  C1. The scenario of two constant lines and an inverter line. The pattern asks for at
  least one input wire between the brackets of \<open>inputs\<close>, so the two lines with
  \<open>inputs [ ]\<close> do not match: \<open>Gate.from_line\<close> prints its error and returns \<open>None\<close> on
  each of them, and \<open>parse_gates\<close> returns 2 at the first line instead of a circuit of
  three gates. Only the inverter line parses.
\<close>

theorem scenario_constant_lines_rejected:
  "Gate_from_line ''0 gate arity 0 table [ 0 ] inputs [ ]'' 0
     = Inr (Inl (MalformedGateLine 0 ''0 gate arity 0 table [ 0 ] inputs [ ]''))
   \<and> Gate_from_line ''1 gate arity 0 table [ 1 ] inputs [ ]'' 1
     = Inr (Inl (MalformedGateLine 1 ''1 gate arity 0 table [ 1 ] inputs [ ]''))
   \<and> Gate_from_line ''2 gate arity 1 table [ 1 0 ] inputs [ 1 ]'' 2
     = Inr (Inr \<lparr>is_input = False, is_output = False, wire = 2, arity = Some 1,
                 table = PyList [1, 0], inputs = PyList [1], comment = None\<rparr>)
   \<and> parse_gates [''0 gate arity 0 table [ 0 ] inputs [ ]'',
                   ''1 gate arity 0 table [ 1 ] inputs [ ]'',
                   ''2 gate arity 1 table [ 1 0 ] inputs [ 1 ]'']
     = Inr (Inl (MalformedGateLine 0 ''0 gate arity 0 table [ 0 ] inputs [ ]'', 2))"
  by code_simp

text \<open>
  C2. A chain of two pass-through gates behind a general gate: wire 3 is the AND of
  wires 1 and 2, wire 4 passes wire 3 through and wire 5 passes wire 4 through. The
  program has no step that resolves pass-through gates: \<open>is_passthru\<close> is never called,
  \<open>parse_gates\<close> returns the dictionary with the gates of wires 4 and 5 still in it, the
  input of wire 5 is still wire 4, and \<open>main\<close> prints that dictionary and ends.
\<close>

theorem passthru_chain_is_not_resolved:
  "parse_gates [''1 input'', ''2 input'',
                ''3 gate arity 2 table [ 0 0 0 1 ] inputs [ 1 2 ]'',
                ''4 gate arity 1 table [ 0 1 ] inputs [ 3 ]'',
                ''5 gate arity 1 table [ 0 1 ] inputs [ 4 ]'']
     = Inr (Inr [
         (1, \<lparr>is_input = True, is_output = False, wire = 1, arity = None,
              table = PyNone, inputs = PyNone, comment = None\<rparr>),
         (2, \<lparr>is_input = True, is_output = False, wire = 2, arity = None,
              table = PyNone, inputs = PyNone, comment = None\<rparr>),
         (3, \<lparr>is_input = False, is_output = False, wire = 3, arity = Some 2,
              table = PyList [0, 0, 0, 1], inputs = PyList [2], comment = None\<rparr>),
         (4, \<lparr>is_input = False, is_output = False, wire = 4, arity = Some 1,
              table = PyList [0, 1], inputs = PyList [3], comment = None\<rparr>),
         (5, \<lparr>is_input = False, is_output = False, wire = 5, arity = Some 1,
              table = PyList [0, 1], inputs = PyList [4], comment = None\<rparr>)])
   \<and> is_passthru \<lparr>is_input = False, is_output = False, wire = 4, arity = Some 1,
              table = PyList [0, 1], inputs = PyList [3], comment = None\<rparr>
   \<and> is_passthru \<lparr>is_input = False, is_output = False, wire = 5, arity = Some 1,
              table = PyList [0, 1], inputs = PyList [4], comment = None\<rparr>
   \<and> main [''a.circuit'', ''a.fmt'']
        (map_of [(''a.circuit'', [''1 input'', ''2 input'',
                ''3 gate arity 2 table [ 0 0 0 1 ] inputs [ 1 2 ]'',
                ''4 gate arity 1 table [ 0 1 ] inputs [ 3 ]'',
                ''5 gate arity 1 table [ 0 1 ] inputs [ 4 ]'']), (''a.fmt'', [])])
     = Inr ([], None)"
  by code_simp

text \<open>
  C3. \<open>parse_gates\<close> returns 2 for a malformed gate line and 3 for a duplicate wire, but
  \<open>main\<close> only prints that result and returns \<open>None\<close>: with a variable file that parses,
  the exit status is 0 in both cases.
\<close>

theorem main_exit_status_ignores_gate_errors:
  "parse_gates [''7 gate'', ''8 input''] = Inr (Inl (MalformedGateLine 0 ''7 gate'', 2))
   \<and> exit_status (main [''a.circuit'', ''a.fmt'']
        (map_of [(''a.circuit'', [''7 gate'', ''8 input'']), (''a.fmt'', [])])) = 0
   \<and> parse_gates [''8 input'', ''8 input''] = Inr (Inl (DuplicateWire 1 ''8 input'' 8, 3))
   \<and> exit_status (main [''a.circuit'', ''a.fmt'']
        (map_of [(''a.circuit'', [''8 input'', ''8 input'']), (''a.fmt'', [])])) = 0"
  by code_simp

text \<open>
  C5. A non-blank line outside the grammar of variable lines: \<open>Variable.from_line\<close> does
  not test the match and raises \<open>AttributeError\<close>, which carries neither the line number
  nor the line; \<open>parse_variables\<close> passes the exception on.
\<close>

theorem malformed_variable_line_raises_AttributeError:
  "Variable_from_line ''Alice integer x'' 0 = Inl AttributeError
   \<and> parse_variables [''Alice integer x''] = Inl AttributeError"
  by code_simp

section \<open>Gate lines\<close>

text \<open>
  C8. The table check misses lines the claim is about. Table bits written without
  whitespace between them are read as one number, so a line of arity 1 with the four
  bits \<open>011 0\<close> is accepted, with the table \<open>[11, 0]\<close>. A line of arity 0 with an empty
  list of inputs and two table bits does not match the pattern at all (as in C1) and is
  reported as a malformed line, not as a table of the wrong size. A line of arity 1 with
  three separate bits is reported as the claim says.
\<close>

theorem table_check_misses_lines:
  "Gate_from_line ''7 gate arity 1 table [ 011 0 ] inputs [ 3 ]'' 0
     = Inr (Inr \<lparr>is_input = False, is_output = False, wire = 7, arity = Some 1,
                 table = PyList [11, 0], inputs = PyList [3], comment = None\<rparr>)
   \<and> Gate_from_line ''0 gate arity 0 table [ 0 1 ] inputs [ ]'' 0
     = Inr (Inl (MalformedGateLine 0 ''0 gate arity 0 table [ 0 1 ] inputs [ ]''))
   \<and> Gate_from_line ''7 gate arity 1 table [ 0 1 1 ] inputs [ 3 ]'' 0
     = Inr (Inl (TableSizeMismatch 0 ''7 gate arity 1 table [ 0 1 1 ] inputs [ 3 ]'' 2 1 3))"
  by code_simp

text \<open>
  What the check does establish, in terms of the whitespace-separated tokens of the
  table group rather than of bits: a line that matches the pattern through the gate
  alternative, with arity \<open>k = int(arity)\<close> at most 3 and a table group \<open>t\<close> whose number
  of tokens differs from \<open>2 ^ k\<close>, gets the table-size report; and every gate returned
  that is not an input has an arity between 0 and 3 and a table list of \<open>2 ^ arity\<close>
  entries.
\<close>

lemma table_token_count_checked:
  "(re_match RE_GATE_LINE (strip line) = Some m \<and> group_of m ''is_input'' = None
      \<and> group_of m ''arity'' = Some a \<and> py_int a = Some k \<and> k \<le> 3
      \<and> group_of m ''table'' = Some t \<and> int (length (split t)) \<noteq> 2 ^ nat k
    \<longrightarrow> Gate_from_line line lineno
          = Inr (Inl (TableSizeMismatch lineno (strip line) (2 ^ nat k) k (length (split t)))))
   \<and> (Gate_from_line line' lineno' = Inr (Inr g) \<and> \<not> is_input g
    \<longrightarrow> (\<exists>n ks. arity g = Some n \<and> 0 \<le> n \<and> n \<le> 3 \<and> table g = PyList ks
          \<and> int (length ks) = 2 ^ nat n))"
proof (intro conjI impI)
  assume h: "re_match RE_GATE_LINE (strip line) = Some m \<and> group_of m ''is_input'' = None
      \<and> group_of m ''arity'' = Some a \<and> py_int a = Some k \<and> k \<le> 3
      \<and> group_of m ''table'' = Some t \<and> int (length (split t)) \<noteq> 2 ^ nat k"
  then have m: "re_match RE_GATE_LINE (strip line) = Some m" and i: "group_of m ''is_input'' = None"
    by simp_all
  from Gate_of_match_gate[OF m i, of lineno "strip line"]
  obtain a' t' k' ks js w c where g:
    "group_of m ''arity'' = Some a'" "py_int a' = Some k'" "0 \<le> k'"
    "group_of m ''table'' = Some t'" "ints_of_tokens (split t') = Inr ks" "length ks = length (split t')"
    "Gate_of_match lineno (strip line) m =
       (if k' > 3 then Inr (Inl (UnsupportedArity lineno (strip line) k'))
        else if int (length ks) \<noteq> 2 ^ nat k'
        then Inr (Inl (TableSizeMismatch lineno (strip line) (2 ^ nat k') k' (length ks)))
        else Inr (Inr \<lparr>is_input = False, is_output = (group_of m ''is_output'' = Some ''output ''),
                       wire = w, arity = Some k', table = PyList ks, inputs = PyList js,
                       comment = c\<rparr>))" .
  from h g(1,2,4) have "a' = a" "k' = k" "t' = t" by simp_all
  with g(6,7) h have "Gate_of_match lineno (strip line) m
      = Inr (Inl (TableSizeMismatch lineno (strip line) (2 ^ nat k) k (length (split t))))"
    by simp
  then show "Gate_from_line line lineno
          = Inr (Inl (TableSizeMismatch lineno (strip line) (2 ^ nat k) k (length (split t))))"
    by (simp add: Gate_from_line_match m)
next
  assume h: "Gate_from_line line' lineno' = Inr (Inr g) \<and> \<not> is_input g"
  then obtain m where m: "re_match RE_GATE_LINE (strip line') = Some m"
    and gm: "Gate_of_match lineno' (strip line') m = Inr (Inr g)"
    by (auto simp: Gate_from_line_match split: option.splits)
  have i: "group_of m ''is_input'' = None"
  proof (rule ccontr)
    assume "group_of m ''is_input'' \<noteq> None"
    from Gate_of_match_input[OF m this, of lineno' "strip line'"] gm
    obtain w c where "g = \<lparr>is_input = True, is_output = (group_of m ''is_output'' = Some ''output ''),
        wire = w, arity = None, table = PyNone, inputs = PyNone, comment = c\<rparr>" by auto
    then have "is_input g" by simp
    with h show False by simp
  qed
  from Gate_of_match_gate[OF m i, of lineno' "strip line'"]
  obtain a' t' k' ks js w c where g:
    "group_of m ''arity'' = Some a'" "py_int a' = Some k'" "0 \<le> k'"
    "group_of m ''table'' = Some t'" "ints_of_tokens (split t') = Inr ks" "length ks = length (split t')"
    "Gate_of_match lineno' (strip line') m =
       (if k' > 3 then Inr (Inl (UnsupportedArity lineno' (strip line') k'))
        else if int (length ks) \<noteq> 2 ^ nat k'
        then Inr (Inl (TableSizeMismatch lineno' (strip line') (2 ^ nat k') k' (length ks)))
        else Inr (Inr \<lparr>is_input = False, is_output = (group_of m ''is_output'' = Some ''output ''),
                       wire = w, arity = Some k', table = PyList ks, inputs = PyList js,
                       comment = c\<rparr>))" .
  from g(7) gm have "k' \<le> 3" "int (length ks) = 2 ^ nat k'"
    and "g = \<lparr>is_input = False, is_output = (group_of m ''is_output'' = Some ''output ''),
                       wire = w, arity = Some k', table = PyList ks, inputs = PyList js,
                       comment = c\<rparr>"
    by (simp_all split: if_splits)
  with g(3) have "arity g = Some k' \<and> 0 \<le> k' \<and> k' \<le> 3 \<and> table g = PyList ks
          \<and> int (length ks) = 2 ^ nat k'" by simp
  then show "\<exists>n ks. arity g = Some n \<and> 0 \<le> n \<and> n \<le> 3 \<and> table g = PyList ks
          \<and> int (length ks) = 2 ^ nat n" by blast
qed

text \<open>
  The two halves at concrete lines: arity 1 with three table bits is reported, and the
  inverter line parses with a table of two entries.
\<close>

lemma table_token_count_checked_example:
  "re_match RE_GATE_LINE (strip ''7 gate arity 1 table [ 0 1 1 ] inputs [ 3 ]'')
     = Some [(''inputs'', ''3 ''), (''table'', ''0 1 1 ''), (''arity'', ''1''), (''wire'', ''7'')]
   \<and> py_int ''1'' = Some 1
   \<and> int (length (split ''0 1 1 '')) \<noteq> 2 ^ nat 1
   \<and> Gate_from_line ''7 gate arity 1 table [ 0 1 1 ] inputs [ 3 ]'' 4
     = Inr (Inl (TableSizeMismatch 4 (strip ''7 gate arity 1 table [ 0 1 1 ] inputs [ 3 ]'')
              (2 ^ nat 1) 1 (length (split ''0 1 1 ''))))
   \<and> Gate_from_line ''2 gate arity 1 table [ 1 0 ] inputs [ 1 ]'' 2
     = Inr (Inr \<lparr>is_input = False, is_output = False, wire = 2, arity = Some 1,
                 table = PyList [1, 0], inputs = PyList [1], comment = None\<rparr>)
   \<and> (\<exists>n ks. arity \<lparr>is_input = False, is_output = False, wire = 2, arity = Some 1,
                 table = PyList [1, 0], inputs = PyList [1], comment = None\<rparr> = Some n
          \<and> 0 \<le> n \<and> n \<le> 3
          \<and> table \<lparr>is_input = False, is_output = False, wire = 2, arity = Some 1,
                 table = PyList [1, 0], inputs = PyList [1], comment = None\<rparr> = PyList ks
          \<and> int (length ks) = 2 ^ nat n)"
proof -
  let ?m = "[(''inputs'', ''3 ''), (''table'', ''0 1 1 ''), (''arity'', ''1''), (''wire'', ''7'')]"
  let ?g = "\<lparr>is_input = False, is_output = False, wire = 2, arity = Some 1,
                 table = PyList [1, 0], inputs = PyList [1], comment = None\<rparr>"
  have h1: "re_match RE_GATE_LINE (strip ''7 gate arity 1 table [ 0 1 1 ] inputs [ 3 ]'') = Some ?m"
    by code_simp
  have h2: "group_of ?m ''is_input'' = None" "group_of ?m ''arity'' = Some ''1''"
    "group_of ?m ''table'' = Some ''0 1 1 ''" by code_simp+
  have h3: "py_int ''1'' = Some 1" "(1::int) \<le> 3" "int (length (split ''0 1 1 '')) \<noteq> 2 ^ nat 1"
    by code_simp+
  have h4: "Gate_from_line ''2 gate arity 1 table [ 1 0 ] inputs [ 1 ]'' 2 = Inr (Inr ?g)"
    by code_simp
  have h5: "\<not> is_input ?g" by simp
  from table_token_count_checked[of "''7 gate arity 1 table [ 0 1 1 ] inputs [ 3 ]''" ?m "''1''" 1
      "''0 1 1 ''" 4 "''2 gate arity 1 table [ 1 0 ] inputs [ 1 ]''" 2 ?g] h1 h2 h3 h4 h5
  show ?thesis by blast
qed

text \<open>
  C10. A gate parsed from a primary-input line (\<open>is_input\<close> true) has no arity, table
  or inputs (all \<open>None\<close>), and the three classifiers, which only compare these fields,
  are all false on it. The classifiers are total: comparing \<open>None\<close> raises nothing.
\<close>

theorem input_gate_classifiers_false:
  "Gate_from_line line lineno = Inr (Inr g) \<Longrightarrow> is_input g \<Longrightarrow>
     \<not> is_constant g \<and> \<not> is_passthru g \<and> \<not> is_not g
     \<and> arity g = None \<and> table g = PyNone \<and> inputs g = PyNone"
proof -
  assume r: "Gate_from_line line lineno = Inr (Inr g)" and inp: "is_input g"
  from r obtain m where m: "re_match RE_GATE_LINE (strip line) = Some m"
    and gm: "Gate_of_match lineno (strip line) m = Inr (Inr g)"
    by (auto simp: Gate_from_line_match split: option.splits)
  have "group_of m ''is_input'' \<noteq> None"
  proof
    assume "group_of m ''is_input'' = None"
    from Gate_of_match_gate[OF m this, of lineno "strip line"]
    obtain a' t' k ks js w c where
      "group_of m ''arity'' = Some a'" "py_int a' = Some k" "0 \<le> k"
      "group_of m ''table'' = Some t'" "ints_of_tokens (split t') = Inr ks" "length ks = length (split t')"
      "Gate_of_match lineno (strip line) m =
       (if k > 3 then Inr (Inl (UnsupportedArity lineno (strip line) k))
        else if int (length ks) \<noteq> 2 ^ nat k
        then Inr (Inl (TableSizeMismatch lineno (strip line) (2 ^ nat k) k (length ks)))
        else Inr (Inr \<lparr>is_input = False, is_output = (group_of m ''is_output'' = Some ''output ''),
                       wire = w, arity = Some k, table = PyList ks, inputs = PyList js,
                       comment = c\<rparr>))" .
    with gm have "is_input g = False" by (auto split: if_splits)
    with inp show False by simp
  qed
  from Gate_of_match_input[OF m this, of lineno "strip line"] gm
  obtain w c where "g = \<lparr>is_input = True, is_output = (group_of m ''is_output'' = Some ''output ''), wire = w,
                arity = None, table = PyNone, inputs = PyNone, comment = c\<rparr>" by auto
  then show ?thesis by (simp add: is_constant_def is_passthru_def is_not_def)
qed

theorem input_gate_classifiers_false_witness:
  "Gate_from_line ''5 input // first'' 0
     = Inr (Inr \<lparr>is_input = True, is_output = False, wire = 5, arity = None,
                 table = PyNone, inputs = PyNone, comment = Some '' first''\<rparr>)
   \<and> \<not> is_constant \<lparr>is_input = True, is_output = False, wire = 5, arity = None,
                 table = PyNone, inputs = PyNone, comment = Some '' first''\<rparr>
   \<and> \<not> is_passthru \<lparr>is_input = True, is_output = False, wire = 5, arity = None,
                 table = PyNone, inputs = PyNone, comment = Some '' first''\<rparr>
   \<and> \<not> is_not \<lparr>is_input = True, is_output = False, wire = 5, arity = None,
                 table = PyNone, inputs = PyNone, comment = Some '' first''\<rparr>"
proof -
  let ?g = "\<lparr>is_input = True, is_output = False, wire = 5, arity = None,
                 table = PyNone, inputs = PyNone, comment = Some '' first''\<rparr>"
  have h1: "Gate_from_line ''5 input // first'' 0 = Inr (Inr ?g)" by code_simp
  have h2: "is_input ?g" by simp
  from input_gate_classifiers_false[OF h1 h2] h1 show ?thesis by simp
qed

section \<open>Duplicate wires\<close>

text \<open>
  C7. Let two lines \<open>i < j\<close> of the file parse to gates with the same wire, and let every
  line up to \<open>j\<close> be blank or parse to a gate. Then \<open>parse_gates\<close> prints the duplicate-wire
  report and returns 3, and it does so at the first repetition \<open>k \<le> j\<close>: the lines
  before \<open>k\<close> assemble into a dictionary that already has the wire of line \<open>k\<close>. No
  dictionary is returned. What follows line \<open>j\<close> does not matter.
\<close>

theorem duplicate_wire_aborts:
  assumes "i < j" and "j < length lines"
    and "Gate_from_line (strip (lines ! i)) i = Inr (Inr gi)"
    and "Gate_from_line (strip (lines ! j)) j = Inr (Inr gj)"
    and "wire gi = wire gj"
    and "\<forall>k\<le>j. strip (lines ! k) = [] \<or> (\<exists>g. Gate_from_line (strip (lines ! k)) k = Inr (Inr g))"
  shows "\<exists>k g ws. k \<le> j \<and> Gate_from_line (strip (lines ! k)) k = Inr (Inr g)
           \<and> parse_gates (take k lines) = Inr (Inr ws) \<and> od_has ws (wire g)
           \<and> parse_gates lines = Inr (Inl (DuplicateWire k (strip (lines ! k)) (wire g), 3))"
proof -
  have "od_has [] (wire gj) \<or>
         (\<exists>i<j. \<exists>gi. Gate_from_line (strip (lines ! i)) (0 + i) = Inr (Inr gi) \<and> wire gi = wire gj)"
    using assms(1,3,5) by auto
  from parse_gates_loop_duplicate[of j lines 0 gj "[]", OF assms(2) _ _ this] assms(4,6)
  show ?thesis by (simp add: parse_gates_def)
qed

theorem duplicate_wire_aborts_witness:
  "Gate_from_line (strip ([''8 input'', [], ''9 input'', ''8 input // again'', ''junk''] ! 0)) 0
     = Inr (Inr \<lparr>is_input = True, is_output = False, wire = 8, arity = None,
                 table = PyNone, inputs = PyNone, comment = None\<rparr>)
   \<and> Gate_from_line (strip ([''8 input'', [], ''9 input'', ''8 input // again'', ''junk''] ! 3)) 3
     = Inr (Inr \<lparr>is_input = True, is_output = False, wire = 8, arity = None,
                 table = PyNone, inputs = PyNone, comment = Some '' again''\<rparr>)
   \<and> (\<exists>k g ws. k \<le> 3
        \<and> Gate_from_line (strip ([''8 input'', [], ''9 input'', ''8 input // again'', ''junk''] ! k)) k
            = Inr (Inr g)
        \<and> parse_gates (take k [''8 input'', [], ''9 input'', ''8 input // again'', ''junk''])
            = Inr (Inr ws)
        \<and> od_has ws (wire g)
        \<and> parse_gates [''8 input'', [], ''9 input'', ''8 input // again'', ''junk'']
            = Inr (Inl (DuplicateWire k
                 (strip ([''8 input'', [], ''9 input'', ''8 input // again'', ''junk''] ! k))
                 (wire g), 3)))"
proof -
  let ?ls = "[''8 input'', [], ''9 input'', ''8 input // again'', ''junk'']"
  let ?g0 = "\<lparr>is_input = True, is_output = False, wire = 8, arity = None,
                 table = PyNone, inputs = PyNone, comment = None\<rparr>"
  let ?g2 = "\<lparr>is_input = True, is_output = False, wire = 9, arity = None,
                 table = PyNone, inputs = PyNone, comment = None\<rparr>"
  let ?g3 = "\<lparr>is_input = True, is_output = False, wire = 8, arity = None,
                 table = PyNone, inputs = PyNone, comment = Some '' again''\<rparr>"
  have p0: "Gate_from_line (strip (?ls ! 0)) 0 = Inr (Inr ?g0)" by code_simp
  have p1: "strip (?ls ! 1) = []" by code_simp
  have p2: "Gate_from_line (strip (?ls ! 2)) 2 = Inr (Inr ?g2)" by code_simp
  have p3: "Gate_from_line (strip (?ls ! 3)) 3 = Inr (Inr ?g3)" by code_simp
  have all: "\<forall>k\<le>3. strip (?ls ! k) = [] \<or> (\<exists>g. Gate_from_line (strip (?ls ! k)) k = Inr (Inr g))"
  proof (intro allI impI)
    fix k :: nat assume "k \<le> 3"
    then consider "k = 0" | "k = 1" | "k = 2" | "k = 3" by linarith
    then show "strip (?ls ! k) = [] \<or> (\<exists>g. Gate_from_line (strip (?ls ! k)) k = Inr (Inr g))"
    proof cases
      case 1 then show ?thesis using p0 by blast
    next
      case 2 then show ?thesis using p1 by blast
    next
      case 3 then show ?thesis using p2 by blast
    next
      case 4 then show ?thesis using p3 by blast
    qed
  qed
  have lt: "(0::nat) < 3" "3 < length ?ls" by simp_all
  have w: "wire ?g0 = wire ?g3" by simp
  from duplicate_wire_aborts[OF lt p0 p3 w all] p0 p3 show ?thesis by blast
qed

section \<open>Variable lines\<close>




text \<open>
  C6, as the claim states it, fails: the record has no field for the direction, and an
  input line and an output line that are otherwise equal parse to the same Variable.
\<close>

theorem variable_direction_not_recorded_example:
  "Variable_from_line (''Alice input integer '' @ [CHR 0x22] @ ''x'' @ [CHR 0x22] @ '' [ 1 ]'') 0
     = Inr \<lparr>party = Some ''Alice'', type = Some ''integer'', name = Some ''x'', wires = [1]\<rparr>
   \<and> Variable_from_line (''Alice output integer '' @ [CHR 0x22] @ ''x'' @ [CHR 0x22] @ '' [ 1 ]'') 0
     = Inr \<lparr>party = Some ''Alice'', type = Some ''integer'', name = Some ''x'', wires = [1]\<rparr>"
  by code_simp

text \<open>
  C6, amended. The parsed Variable holds \<open>party\<close>, \<open>type\<close>, \<open>name\<close> and \<open>wires\<close> only. The
  token \<open>input\<close> or \<open>output\<close> is matched and dropped: for either party and whatever
  follows, the line with \<open>input\<close> and the line with \<open>output\<close> have the same result.
\<close>

theorem variable_direction_not_recorded:
  "Variable_from_line (''Alice input '' @ rest) lineno = Variable_from_line (''Alice output '' @ rest) lineno'
   \<and> Variable_from_line (''Bob input '' @ rest) lineno = Variable_from_line (''Bob output '' @ rest) lineno'"
proof -
  have "re_match RE_VAR_LINE (''Alice input '' @ rest) = re_match RE_VAR_LINE (''Alice output '' @ rest)"
    unfolding re_match_def var_Alice_input var_Alice_output
    using var_tail_any_length[of "length (''Alice input '' @ rest)" "length (''Alice output '' @ rest)"]
    by simp
  moreover
  have "re_match RE_VAR_LINE (''Bob input '' @ rest) = re_match RE_VAR_LINE (''Bob output '' @ rest)"
    unfolding re_match_def var_Bob_input var_Bob_output
    using var_tail_any_length[of "length (''Bob input '' @ rest)" "length (''Bob output '' @ rest)"]
    by simp
  ultimately show ?thesis by (simp add: Variable_from_line_def)
qed

end
